theory Spec2Isabelle
  imports Main "HOL-Library.Word" "HOL-Library.AList"
begin

section \<open>JavaScript strings\<close>

text \<open>
  A JavaScript string is a sequence of UTF-16 code units; \<^verbatim>\<open>length\<close>, \<^verbatim>\<open>slice\<close>,
  \<^verbatim>\<open>split\<close> and \<^verbatim>\<open>trim\<close> all count code units. \<open>js\<close> writes an ASCII literal.
\<close>

type_synonym jschar = "16 word"
type_synonym jsstring = "jschar list"

definition js :: "string \<Rightarrow> jsstring" where
  "js s = map (\<lambda>c. of_char c) s"

definition LF :: jschar where "LF = 0x0A"
definition CR :: jschar where "CR = 0x0D"
definition SP :: jschar where "SP = 0x20"

text \<open>
  The code units that the regular expression class \<^verbatim>\<open>\s\<close> matches and that \<^verbatim>\<open>trim\<close> strips:
  ECMAScript's WhiteSpace (TAB, VT, FF, SP, NBSP, ZWNBSP and the other space separators)
  and LineTerminator (LF, CR, LS, PS). The two sets are the same.
\<close>

definition is_space :: "jschar \<Rightarrow> bool" where
  "is_space c =
     (c \<in> {0x09, 0x0A, 0x0B, 0x0C, 0x0D, 0x20, 0xA0, 0x1680,
            0x2000, 0x2001, 0x2002, 0x2003, 0x2004, 0x2005, 0x2006, 0x2007, 0x2008, 0x2009, 0x200A,
            0x2028, 0x2029, 0x202F, 0x205F, 0x3000, 0xFEFF})"

definition trim :: "jsstring \<Rightarrow> jsstring" where
  "trim s = rev (dropWhile is_space (rev (dropWhile is_space s)))"

text \<open>
  \<^verbatim>\<open>str.split(/\s+/)\<close>: the pieces between the maximal runs of white space, an empty
  piece before a leading run and after a trailing one, \<open>[[]]\<close> for the empty string. The
  first argument is the piece being read.
\<close>

function split_ws_from :: "jsstring \<Rightarrow> jsstring \<Rightarrow> jsstring list" where
  "split_ws_from cur [] = [cur]"
| "split_ws_from cur (c # cs) =
     (if is_space c then cur # split_ws_from [] (dropWhile is_space cs)
      else split_ws_from (cur @ [c]) cs)"
  by pat_completeness auto
termination
  by (relation "measure (\<lambda>(cur, s). length s)") (auto simp: less_Suc_eq_le length_dropWhile_le)

definition split_ws :: "jsstring \<Rightarrow> jsstring list" where
  "split_ws str = split_ws_from [] str"

text \<open>
  \<^verbatim>\<open>text.split(/\n\n+/)\<close>: the pieces between the maximal runs of two or more line feeds.
  A single line feed stays inside its piece.
\<close>

function split_paragraphs_from :: "jsstring \<Rightarrow> jsstring \<Rightarrow> jsstring list" where
  "split_paragraphs_from cur [] = [cur]"
| "split_paragraphs_from cur [c] = [cur @ [c]]"
| "split_paragraphs_from cur (c # d # cs) =
     (if c = LF \<and> d = LF then cur # split_paragraphs_from [] (dropWhile (\<lambda>x. x = LF) cs)
      else split_paragraphs_from (cur @ [c]) (d # cs))"
  by pat_completeness auto
termination
  by (relation "measure (\<lambda>(cur, s). length s)")
     (auto simp: less_Suc_eq_le length_dropWhile_le le_SucI)

definition split_paragraphs :: "jsstring \<Rightarrow> jsstring list" where
  "split_paragraphs text = split_paragraphs_from [] text"

text \<open>
  A \<^verbatim>\<open>for (const x of xs)\<close> loop over an array whose body updates the loop's variables
  and may fail to return: the state is threaded through, \<open>None\<close> is a body that never
  returns.
\<close>

fun for_of :: "('s \<Rightarrow> 'a \<Rightarrow> 's option) \<Rightarrow> 'a list \<Rightarrow> 's \<Rightarrow> 's option" where
  "for_of body [] st = Some st"
| "for_of body (x # xs) st = (case body st x of None \<Rightarrow> None | Some st' \<Rightarrow> for_of body xs st')"

section \<open>app/api/documents/route.ts: chunkText\<close>

text \<open>
  The inner loop of \<^verbatim>\<open>splitByLength\<close> that hard-splits an over-length word:
  \<^verbatim>\<open>for (let i = 0; i < word.length; i += max) result.push(word.slice(i, i + max))\<close>.
  With \<open>max' = 0\<close> the index never moves and the loop does not end, so the loop is a partial
  function; \<open>None\<close> is the run that never returns. \<open>maxLength\<close> is a natural number here
  (the only caller passes 2000); \<open>max'\<close> is the source's \<^verbatim>\<open>max\<close>.
\<close>

partial_function (option) slice_loop :: "jsstring \<Rightarrow> nat \<Rightarrow> nat \<Rightarrow> jsstring list \<Rightarrow> jsstring list option" where
  "slice_loop word max' i result =
     (if i < length word
      then slice_loop word max' (i + max') (result @ [take max' (drop i word)])
      else Some result)"

declare slice_loop.simps [code]

text \<open>The body of the loop over the words; the state is \<open>(result, current)\<close>.\<close>

fun splitByLength_body :: "nat \<Rightarrow> jsstring list \<times> jsstring \<Rightarrow> jsstring \<Rightarrow> (jsstring list \<times> jsstring) option" where
  "splitByLength_body max' (result, current) word =
     (if length word > max' then
        (case slice_loop word max' 0 (if current \<noteq> [] then result @ [trim current] else result) of
           None \<Rightarrow> None
         | Some result' \<Rightarrow> Some (result', []))
      else if length current + length word + 1 > max' then
        Some (if current \<noteq> [] then result @ [trim current] else result, word)
      else Some (result, current @ (if current \<noteq> [] then [SP] else []) @ word))"

definition splitByLength :: "jsstring \<Rightarrow> nat \<Rightarrow> jsstring list option" where
  "splitByLength str max' =
     (case for_of (splitByLength_body max') (split_ws str) ([], []) of
        None \<Rightarrow> None
      | Some (result, current) \<Rightarrow>
          Some (if trim current \<noteq> [] then result @ [trim current] else result))"

text \<open>The body of the loop over the paragraphs; the state is \<open>(chunks, currentChunk)\<close>.\<close>

fun chunkText_body :: "nat \<Rightarrow> jsstring list \<times> jsstring \<Rightarrow> jsstring \<Rightarrow> (jsstring list \<times> jsstring) option" where
  "chunkText_body maxLength (chunks, currentChunk) para =
     (if length para > maxLength then
        (case splitByLength para maxLength of
           None \<Rightarrow> None
         | Some pieces \<Rightarrow>
             Some ((if currentChunk \<noteq> [] then chunks @ [trim currentChunk] else chunks) @ pieces, []))
      else if length currentChunk + length para > maxLength \<and> currentChunk \<noteq> [] then
        Some (chunks @ [trim currentChunk], para)
      else Some (chunks, currentChunk @ (if currentChunk \<noteq> [] then [LF, LF] else []) @ para))"

definition chunkText :: "jsstring \<Rightarrow> nat \<Rightarrow> jsstring list option" where
  "chunkText text maxLength =
     (case for_of (chunkText_body maxLength) (split_paragraphs text) ([], []) of
        None \<Rightarrow> None
      | Some (chunks, currentChunk) \<Rightarrow>
          (let chunks' = (if trim currentChunk \<noteq> [] then chunks @ [trim currentChunk] else chunks)
           in Some (if length chunks' > 0 then chunks' else [take maxLength (trim text)])))"

text \<open>
  The invariant of the loop over the words: every piece pushed so far is non-empty and
  equal to its own trim, and the piece being built is empty or has a character that is
  not white space.
\<close>

definition pieces_ok :: "jsstring list \<times> jsstring \<Rightarrow> bool" where
  "pieces_ok st = ((\<forall>p\<in>set (fst st). p \<noteq> [] \<and> trim p = p) \<and> (snd st = [] \<or> trim (snd st) \<noteq> []))"

section \<open>lib/rateLimit.ts\<close>

record RateLimitEntry =
  count :: int
  resetTime :: int

record RateLimitConfig =
  windowMs :: int
  maxRequests :: int

record RateLimitResult =
  allowed :: bool
  remaining :: int
  resetIn :: int

text \<open>
  \<^verbatim>\<open>rateLimitStore = new Map<string, RateLimitEntry>()\<close>: a JavaScript Map keeps its keys
  distinct and in insertion order, so it is an association list; \<^verbatim>\<open>get\<close> is \<open>map_of\<close>,
  \<^verbatim>\<open>set\<close> is \<open>AList.update\<close> (in place for an old key, at the end for a new one) and
  \<^verbatim>\<open>size\<close> is \<open>length\<close>. The key is the caller's address alone.
\<close>

type_synonym rateLimitStore = "(jsstring \<times> RateLimitEntry) list"

definition defaultConfig :: RateLimitConfig where
  "defaultConfig = \<lparr>windowMs = 60 * 1000, maxRequests = 30\<rparr>"

definition uploadRateLimit :: RateLimitConfig where
  "uploadRateLimit = \<lparr>windowMs = 60 * 1000, maxRequests = 10\<rparr>"

definition askRateLimit :: RateLimitConfig where
  "askRateLimit = \<lparr>windowMs = 60 * 1000, maxRequests = 20\<rparr>"

definition healthRateLimit :: RateLimitConfig where
  "healthRateLimit = \<lparr>windowMs = 60 * 1000, maxRequests = 60\<rparr>"

text \<open>The periodic clean-up at the head of \<^verbatim>\<open>checkRateLimit\<close>.\<close>

definition cleanup :: "int \<Rightarrow> rateLimitStore \<Rightarrow> rateLimitStore" where
  "cleanup now store =
     (if length store > 10000
      then filter (\<lambda>(key, val). \<not> resetTime val < now) store
      else store)"

text \<open>
  \<^verbatim>\<open>checkRateLimit(ip, config)\<close>, with \<^verbatim>\<open>Date.now()\<close> as the argument \<open>now\<close> and the
  store passed in and returned. The entry is read before the clean-up, as in the source;
  \<^verbatim>\<open>entry.count++\<close> mutates the object held by the map, which is \<open>AList.map_entry\<close>.
\<close>

definition checkRateLimit ::
  "int \<Rightarrow> jsstring \<Rightarrow> RateLimitConfig \<Rightarrow> rateLimitStore \<Rightarrow> RateLimitResult \<times> rateLimitStore" where
  "checkRateLimit now ip config store =
     (let entry = map_of store ip;
          store1 = cleanup now store;
          fresh = (\<lparr>allowed = True, remaining = maxRequests config - 1, resetIn = windowMs config\<rparr>,
                   AList.update ip \<lparr>count = 1, resetTime = now + windowMs config\<rparr> store1)
      in case entry of
           None \<Rightarrow> fresh
         | Some e \<Rightarrow>
             if resetTime e < now then fresh
             else if count e \<ge> maxRequests config then
               (\<lparr>allowed = False, remaining = 0, resetIn = resetTime e - now\<rparr>, store1)
             else
               (\<lparr>allowed = True, remaining = maxRequests config - (count e + 1),
                 resetIn = resetTime e - now\<rparr>,
                AList.map_entry ip (\<lambda>e. e\<lparr>count := count e + 1\<rparr>) store1))"

text \<open>
  A run of admission calls of one address: each call has its own time and its own policy
  (the route that makes it chooses the policy).
\<close>

fun admits ::
  "jsstring \<Rightarrow> (int \<times> RateLimitConfig) list \<Rightarrow> rateLimitStore \<Rightarrow> RateLimitResult list \<times> rateLimitStore" where
  "admits ip [] store = ([], store)"
| "admits ip ((now, config) # calls) store =
     (case checkRateLimit now ip config store of
        (r, store1) \<Rightarrow> (case admits ip calls store1 of (rs, store2) \<Rightarrow> (r # rs, store2)))"

text \<open>
  What one call does to the caller's own entry and what it answers: the projection of
  \<open>checkRateLimit\<close> on the key it is called with (lemmas \<open>checkRateLimit_fst\<close> and
  \<open>checkRateLimit_entry\<close> below).
\<close>

definition entry_step :: "int \<Rightarrow> RateLimitConfig \<Rightarrow> RateLimitEntry option \<Rightarrow> RateLimitResult \<times> RateLimitEntry" where
  "entry_step now config entry =
     (case entry of
        None \<Rightarrow> (\<lparr>allowed = True, remaining = maxRequests config - 1, resetIn = windowMs config\<rparr>,
                 \<lparr>count = 1, resetTime = now + windowMs config\<rparr>)
      | Some e \<Rightarrow>
          if resetTime e < now then
            (\<lparr>allowed = True, remaining = maxRequests config - 1, resetIn = windowMs config\<rparr>,
             \<lparr>count = 1, resetTime = now + windowMs config\<rparr>)
          else if count e \<ge> maxRequests config then
            (\<lparr>allowed = False, remaining = 0, resetIn = resetTime e - now\<rparr>, e)
          else
            (\<lparr>allowed = True, remaining = maxRequests config - (count e + 1),
              resetIn = resetTime e - now\<rparr>, e\<lparr>count := count e + 1\<rparr>))"

section \<open>lib/embeddings.ts\<close>

text \<open>
  The embedding provider is outside the program. One \<^verbatim>\<open>fetch\<close> either rejects (a network
  failure) or resolves to a response with a status, an error text, and, when the body
  parses, the vector \<^verbatim>\<open>data.data[0].embedding\<close>. Vectors are opaque here (type \<open>'v\<close>).
  \<open>provider text inputType attempt\<close> is what the provider answers to the fetch that
  \<^verbatim>\<open>getEmbedding(text, inputType)\<close> makes in loop round \<open>attempt\<close>.
\<close>

datatype input_type = Query | Passage

record 'v response =
  status :: nat
  errorText :: jsstring
  embedding :: "'v option"

datatype 'v fetched = Rejected jsstring | Resolved "'v response"

type_synonym 'v provider = "jsstring \<Rightarrow> input_type \<Rightarrow> nat \<Rightarrow> 'v fetched"

text \<open>\<^verbatim>\<open>response.ok\<close>: the status is in the range 200 to 299.\<close>

definition ok :: "'v response \<Rightarrow> bool" where
  "ok r = (200 \<le> status r \<and> status r \<le> 299)"

datatype error =
    ApiKeyNotSet
  | ApiError jsstring
  | FetchFailed jsstring
  | BadBody
  | MaxRetriesExceeded

text \<open>What a call does, in order: the fetches it issues and the delays it sleeps.\<close>

datatype event = Fetch nat | Sleep int

definition MAX_RETRIES :: nat where "MAX_RETRIES = 5"
definition INITIAL_BACKOFF_MS :: int where "INITIAL_BACKOFF_MS = 1000"

text \<open>
  The retry loop of \<^verbatim>\<open>getEmbedding\<close>, from round \<open>attempt\<close> on, with the loop's
  \<^verbatim>\<open>lastError\<close> and the events so far. The result is the events and either the error thrown
  or the vector returned.
\<close>

function getEmbedding_loop ::
  "(nat \<Rightarrow> 'v fetched) \<Rightarrow> nat \<Rightarrow> error option \<Rightarrow> event list \<Rightarrow> event list \<times> (error + 'v)" where
  "getEmbedding_loop fetch attempt lastError trace =
     (if attempt < MAX_RETRIES then
        (case fetch attempt of
           Rejected msg \<Rightarrow> (trace @ [Fetch attempt], Inl (FetchFailed msg))
         | Resolved response \<Rightarrow>
             if ok response then
               (case embedding response of
                  Some v \<Rightarrow> (trace @ [Fetch attempt], Inr v)
                | None \<Rightarrow> (trace @ [Fetch attempt], Inl BadBody))
             else if status response = 429 \<or> status response \<ge> 500 then
               getEmbedding_loop fetch (attempt + 1) (Some (ApiError (errorText response)))
                 (trace @ [Fetch attempt, Sleep (INITIAL_BACKOFF_MS * 2 ^ attempt)])
             else (trace @ [Fetch attempt], Inl (ApiError (errorText response))))
      else (trace, Inl (case lastError of Some e \<Rightarrow> e | None \<Rightarrow> MaxRetriesExceeded)))"
  by pat_completeness auto
termination
  by (relation "measure (\<lambda>(fetch, attempt, lastError, trace). MAX_RETRIES - attempt)") auto

declare getEmbedding_loop.simps [simp del]

text \<open>
  \<^verbatim>\<open>getEmbedding(text, inputType)\<close>; \<open>apiKey\<close> is \<^verbatim>\<open>process.env.NVIDIA_API_KEY\<close>, absent or
  empty when \<^verbatim>\<open>!apiKey\<close>.
\<close>

definition getEmbedding_trace ::
  "jsstring option \<Rightarrow> 'v provider \<Rightarrow> jsstring \<Rightarrow> input_type \<Rightarrow> event list \<times> (error + 'v)" where
  "getEmbedding_trace apiKey provider text inputType =
     (if apiKey = None \<or> apiKey = Some [] then ([], Inl ApiKeyNotSet)
      else getEmbedding_loop (provider text inputType) 0 None [])"

definition getEmbedding :: "jsstring option \<Rightarrow> 'v provider \<Rightarrow> jsstring \<Rightarrow> input_type \<Rightarrow> error + 'v" where
  "getEmbedding apiKey provider text inputType = snd (getEmbedding_trace apiKey provider text inputType)"

text \<open>
  \<^verbatim>\<open>getEmbeddingsBatch\<close>: \<^verbatim>\<open>Promise.all\<close> over one \<open>getEmbedding\<close> per text. It resolves to all
  the vectors, in the order of the texts, when every call resolves, and rejects when one
  rejects. Which rejection wins is a matter of timing; the model takes the first in the
  order of the texts.
\<close>

fun all_or_first_error :: "(error + 'v) list \<Rightarrow> error + 'v list" where
  "all_or_first_error [] = Inr []"
| "all_or_first_error (Inl e # rs) = Inl e"
| "all_or_first_error (Inr v # rs) =
     (case all_or_first_error rs of Inl e \<Rightarrow> Inl e | Inr vs \<Rightarrow> Inr (v # vs))"

definition getEmbeddingsBatch ::
  "jsstring option \<Rightarrow> 'v provider \<Rightarrow> jsstring list \<Rightarrow> input_type \<Rightarrow> error + 'v list" where
  "getEmbeddingsBatch apiKey provider texts inputType =
     all_or_first_error (map (\<lambda>text. getEmbedding apiKey provider text inputType) texts)"

text \<open>
  The classes of a fetch's outcome that the retry loop tells apart: a transient failure
  (status 429 or 500 and above), and a permanent one (any other status that is not ok).
\<close>

fun transient :: "'v fetched \<Rightarrow> bool" where
  "transient (Rejected msg) = False"
| "transient (Resolved r) = (\<not> ok r \<and> (status r = 429 \<or> status r \<ge> 500))"

fun permanent :: "'v fetched \<Rightarrow> bool" where
  "permanent (Rejected msg) = False"
| "permanent (Resolved r) = (\<not> ok r \<and> \<not> (status r = 429 \<or> status r \<ge> 500))"

fun failure_text :: "'v fetched \<Rightarrow> jsstring" where
  "failure_text (Rejected msg) = msg"
| "failure_text (Resolved r) = errorText r"

text \<open>The events of \<open>k\<close> failed rounds from round \<open>a\<close>: each a fetch, then its delay.\<close>

definition retry_events :: "nat \<Rightarrow> nat \<Rightarrow> event list" where
  "retry_events a k = concat (map (\<lambda>i. [Fetch i, Sleep (INITIAL_BACKOFF_MS * 2 ^ i)]) [a..<a + k])"

text \<open>
  Two providers to run the loop on: one that answers 503 to the first \<open>n\<close> fetches and
  then succeeds, and one that answers 401.
\<close>

definition flaky :: "nat \<Rightarrow> int list provider" where
  "flaky n text inputType attempt =
     (if attempt < n then Resolved \<lparr>status = 503, errorText = js ''busy'', embedding = None\<rparr>
      else Resolved \<lparr>status = 200, errorText = [], embedding = Some [1, 2, 3]\<rparr>)"

definition denying :: "int list provider" where
  "denying text inputType attempt = Resolved \<lparr>status = 401, errorText = js ''no'', embedding = None\<rparr>"

section \<open>lib/pinecone.ts and the index service\<close>

text \<open>
  A record of the index, in the shape the upload route writes it: the id, the vector,
  and the metadata fields.
\<close>

record 'v index_record =
  rid :: jsstring
  vals :: 'v
  documentName :: jsstring
  chunk :: jsstring
  chunkIndex :: nat
  uploadedAt :: jsstring

text \<open>
  The index holds, for every namespace, a list of records with distinct ids. The service
  is outside the program; its operations are modelled by their contract: an operation
  issued through a handle reads and writes the handle's namespace only, \<^verbatim>\<open>upsert\<close> replaces
  the records whose ids it is given, \<^verbatim>\<open>query\<close> returns the best \<open>topK\<close> of the records that
  pass the filter, in the service's own ranking, and \<^verbatim>\<open>deleteMany\<close> removes the records
  with the given ids. Service failures are not modelled.
\<close>

type_synonym 'v index_state = "jsstring \<Rightarrow> 'v index_record list"

datatype index_handle = WholeIndex | Namespaced jsstring

text \<open>
  \<^verbatim>\<open>getIndex(namespace)\<close>: \<^verbatim>\<open>namespace ? index.namespace(namespace) : index\<close>. The handle
  without a namespace works on the default namespace, the empty string.
\<close>

definition getIndex :: "jsstring \<Rightarrow> index_handle" where
  "getIndex namespace = (if namespace \<noteq> [] then Namespaced namespace else WholeIndex)"

fun target :: "index_handle \<Rightarrow> jsstring" where
  "target WholeIndex = []"
| "target (Namespaced ns) = ns"

definition upsert :: "index_handle \<Rightarrow> 'v index_record list \<Rightarrow> 'v index_state \<Rightarrow> 'v index_state" where
  "upsert h records idx =
     idx(target h := filter (\<lambda>r. rid r \<notin> set (map rid records)) (idx (target h)) @ records)"

definition query ::
  "('v \<Rightarrow> 'v index_record list \<Rightarrow> 'v index_record list) \<Rightarrow> index_handle \<Rightarrow> 'v \<Rightarrow> nat \<Rightarrow>
   ('v index_record \<Rightarrow> bool) \<Rightarrow> 'v index_state \<Rightarrow> 'v index_record list" where
  "query ranking h vector topK flt idx = take topK (ranking vector (filter flt (idx (target h))))"

definition deleteMany :: "index_handle \<Rightarrow> jsstring list \<Rightarrow> 'v index_state \<Rightarrow> 'v index_state" where
  "deleteMany h ids idx = idx(target h := filter (\<lambda>r. rid r \<notin> set ids) (idx (target h)))"

section \<open>The routes' environment and responses\<close>

text \<open>
  Everything a route reads from outside the program: the API key and the embedding
  provider, the index service's ranking and its \<^verbatim>\<open>describeIndexStats\<close> count, the dummy
  query vector \<^verbatim>\<open>new Array(1024).fill(0)\<close>, the rounded score of a match, the answer
  generator, the document parsers (each returns the text or throws a message), the
  upload's \<^verbatim>\<open>Date.now()\<close> and the \<^verbatim>\<open>toISOString()\<close> stamp taken for each chunk.
  \<open>'b\<close> is a file's content.
\<close>

record ('v, 'b) env =
  NVIDIA_API_KEY :: "jsstring option"
  embeddingProvider :: "'v provider"
  indexRanking :: "'v \<Rightarrow> 'v index_record list \<Rightarrow> 'v index_record list"
  totalRecordCount :: "index_handle \<Rightarrow> 'v index_state \<Rightarrow> nat"
  zeroVector :: 'v
  relevanceScore :: "'v \<Rightarrow> 'v index_record \<Rightarrow> int"
  generateAnswer :: "jsstring \<Rightarrow> (jsstring \<times> jsstring) list \<Rightarrow> error + jsstring"
  pdfText :: "'b \<Rightarrow> jsstring + jsstring"
  pptxText :: "'b \<Rightarrow> jsstring + jsstring"
  docxText :: "'b \<Rightarrow> jsstring + jsstring"
  fileText :: "'b \<Rightarrow> jsstring"
  uploadTimestamp :: nat
  isoString :: "nat \<Rightarrow> jsstring"

record 'b uploaded_file =
  fileName :: jsstring
  content :: 'b

record doc_summary =
  docName :: jsstring
  docUploadedAt :: jsstring
  docChunks :: nat

datatype http_response =
    TooManyRequests int
  | BadRequest jsstring
  | NotFound jsstring
  | ServerError error
  | Uploaded jsstring nat
  | Listed "doc_summary list" nat
  | Deleted nat
  | Answered jsstring "(jsstring \<times> jsstring \<times> int) list"
  | NoResponse

section \<open>app/api/documents/route.ts\<close>

text \<open>
  \<^verbatim>\<open>toLowerCase\<close> on the ASCII letters (the suffixes tested below have no other preimage)
  and \<^verbatim>\<open>endsWith\<close>.
\<close>

definition toLowerCase :: "jsstring \<Rightarrow> jsstring" where
  "toLowerCase s = map (\<lambda>c. if 0x41 \<le> c \<and> c \<le> 0x5A then c + 0x20 else c) s"

definition endsWith :: "jsstring \<Rightarrow> jsstring \<Rightarrow> bool" where
  "endsWith s suffix = (length suffix \<le> length s \<and> drop (length s - length suffix) s = suffix)"

text \<open>\<^verbatim>\<open>.replace(/\r\n/g, '\n')\<close>\<close>

fun crlf_to_lf :: "jsstring \<Rightarrow> jsstring" where
  "crlf_to_lf [] = []"
| "crlf_to_lf [c] = [c]"
| "crlf_to_lf (c # d # cs) =
     (if c = CR \<and> d = LF then LF # crlf_to_lf cs else c # crlf_to_lf (d # cs))"

text \<open>\<^verbatim>\<open>.replace(/\n{3,}/g, '\n\n')\<close>: a maximal run of three or more line feeds becomes two.\<close>

function collapse_newlines :: "jsstring \<Rightarrow> jsstring" where
  "collapse_newlines [] = []"
| "collapse_newlines (c # cs) =
     (if c = LF then
        (if length (takeWhile (\<lambda>x. x = LF) cs) \<ge> 2 then [LF, LF]
         else LF # takeWhile (\<lambda>x. x = LF) cs) @ collapse_newlines (dropWhile (\<lambda>x. x = LF) cs)
      else c # collapse_newlines cs)"
  by pat_completeness auto
termination
  by (relation "measure length") (auto simp: less_Suc_eq_le length_dropWhile_le)

definition clean_text :: "jsstring \<Rightarrow> jsstring" where
  "clean_text s = trim (collapse_newlines (crlf_to_lf s))"

text \<open>
  One branch of \<^verbatim>\<open>extractTextFromFile\<close> for a parsed format: the parser's text is cleaned;
  a throw inside the \<^verbatim>\<open>try\<close>, the parser's or the one for an empty text, is caught and
  thrown again behind the branch's prefix.
\<close>

definition parsed_text :: "jsstring \<Rightarrow> jsstring \<Rightarrow> jsstring + jsstring \<Rightarrow> jsstring + jsstring" where
  "parsed_text prefix emptyMessage parsed =
     (case parsed of
        Inl message \<Rightarrow> Inl (prefix @ message)
      | Inr text \<Rightarrow>
          (let cleanedText = clean_text text
           in if cleanedText = [] then Inl (prefix @ emptyMessage) else Inr cleanedText))"

definition extractTextFromFile :: "('v, 'b) env \<Rightarrow> 'b uploaded_file \<Rightarrow> jsstring + jsstring" where
  "extractTextFromFile e f =
     (let name = toLowerCase (fileName f)
      in if endsWith name (js ''.pdf'') then
           parsed_text (js ''Failed to parse PDF: '')
             (js ''PDF appears to be empty or contains only images'') (pdfText e (content f))
         else if endsWith name (js ''.pptx'') then
           parsed_text (js ''Failed to parse PowerPoint: '')
             (js ''PowerPoint appears to be empty or contains only images'') (pptxText e (content f))
         else if endsWith name (js ''.docx'') then
           parsed_text (js ''Failed to parse Word document: '')
             (js ''Word document appears to be empty'') (docxText e (content f))
         else Inr (fileText e (content f)))"

text \<open>A natural number in decimal, as a template literal prints it.\<close>

fun decimal :: "nat \<Rightarrow> jsstring" where
  "decimal n = (if n < 10 then [of_nat (48 + n)] else decimal (n div 10) @ [of_nat (48 + n mod 10)])"

declare decimal.simps [simp del]

definition BATCH_SIZE :: nat where "BATCH_SIZE = 5"

text \<open>The record pushed for chunk \<open>k\<close> of the upload, \<open>k = i + j\<close>.\<close>

definition chunk_record :: "('v, 'b) env \<Rightarrow> jsstring \<Rightarrow> nat \<Rightarrow> jsstring \<Rightarrow> 'v \<Rightarrow> 'v index_record" where
  "chunk_record e name k text v =
     \<lparr>rid = name @ js ''-'' @ decimal (uploadTimestamp e) @ js ''-'' @ decimal k,
      vals = v, documentName = name, chunk = text, chunkIndex = k, uploadedAt = isoString e k\<rparr>"

text \<open>
  The loop \<^verbatim>\<open>for (let i = 0; i < chunks.length; i += BATCH_SIZE)\<close> of the upload: each round
  embeds one batch and pushes its records onto \<open>vectors\<close>; a rejected batch throws out of
  the loop.
\<close>

function embed_batches ::
  "('v, 'b) env \<Rightarrow> jsstring \<Rightarrow> jsstring list \<Rightarrow> nat \<Rightarrow> 'v index_record list \<Rightarrow> error + 'v index_record list" where
  "embed_batches e name chunks i vectors =
     (if i < length chunks then
        (let batch = take BATCH_SIZE (drop i chunks)
         in case getEmbeddingsBatch (NVIDIA_API_KEY e) (embeddingProvider e) batch Passage of
              Inl err \<Rightarrow> Inl err
            | Inr embeddings \<Rightarrow>
                embed_batches e name chunks (i + BATCH_SIZE)
                  (vectors @ map (\<lambda>j. chunk_record e name (i + j) (batch ! j) (embeddings ! j))
                               [0..<length batch]))
      else Inr vectors)"
  by pat_completeness auto
termination
  by (relation "measure (\<lambda>(e, name, chunks, i, vectors). length chunks - i)")
     (auto simp: BATCH_SIZE_def)

declare embed_batches.simps [simp del]

text \<open>
  \<^verbatim>\<open>POST\<close>: the upload. The state is the rate limiter's store and the index; \<open>now\<close> is the
  \<^verbatim>\<open>Date.now()\<close> of the admission check.
\<close>

definition POST_documents ::
  "('v, 'b) env \<Rightarrow> int \<Rightarrow> jsstring \<Rightarrow> 'b uploaded_file option \<Rightarrow> rateLimitStore \<times> 'v index_state \<Rightarrow>
   http_response \<times> rateLimitStore \<times> 'v index_state" where
  "POST_documents e now ip formFile st =
     (case st of (store, idx) \<Rightarrow>
       (case checkRateLimit now ip uploadRateLimit store of (r, store1) \<Rightarrow>
         (if \<not> allowed r then (TooManyRequests (resetIn r), store1, idx)
          else
            (case formFile of
               None \<Rightarrow> (BadRequest (js ''No file provided''), store1, idx)
             | Some f \<Rightarrow>
                 (case extractTextFromFile e f of
                    Inl errorMsg \<Rightarrow> (BadRequest errorMsg, store1, idx)
                  | Inr text \<Rightarrow>
                      (if trim text = [] then (BadRequest (js ''File is empty''), store1, idx)
                       else
                         (case chunkText text 2000 of
                            None \<Rightarrow> (NoResponse, store1, idx)
                          | Some chunks \<Rightarrow>
                              (case embed_batches e (fileName f) chunks 0 [] of
                                 Inl err \<Rightarrow> (ServerError err, store1, idx)
                               | Inr vectors \<Rightarrow>
                                   (Uploaded (fileName f) (length chunks), store1,
                                    upsert (getIndex ip) vectors idx)))))))))"



text \<open>
  \<^verbatim>\<open>DELETE\<close>. \<open>requested\<close> is the body's \<^verbatim>\<open>documentName\<close>, \<open>None\<close> when it is missing; the
  empty string is falsy as well.
\<close>

definition DELETE_documents ::
  "('v, 'b) env \<Rightarrow> int \<Rightarrow> jsstring \<Rightarrow> jsstring option \<Rightarrow> rateLimitStore \<times> 'v index_state \<Rightarrow>
   http_response \<times> rateLimitStore \<times> 'v index_state" where
  "DELETE_documents e now ip requested st =
     (case st of (store, idx) \<Rightarrow>
       (case checkRateLimit now ip defaultConfig store of (r, store1) \<Rightarrow>
         (if \<not> allowed r then (TooManyRequests (resetIn r), store1, idx)
          else if requested = None \<or> requested = Some [] then
            (BadRequest (js ''Document name is required''), store1, idx)
          else
            (let index = getIndex ip;
                 matches = query (indexRanking e) index (zeroVector e) 1000
                             (\<lambda>r. Some (documentName r) = requested) idx
             in if matches = [] then (NotFound (js ''Document not found''), store1, idx)
                else
                  (let idsToDelete = map rid matches
                   in (Deleted (length idsToDelete), store1, deleteMany index idsToDelete idx))))))"

section \<open>app/api/ask/route.ts\<close>


section \<open>A concrete environment\<close>

text \<open>
  An environment to run the routes on: vectors are lists of integers, a file's content is
  its text, every parser returns the content as it is, the index ranks in stored order,
  and the embedding provider is a parameter.
\<close>

definition test_env :: "int list provider \<Rightarrow> (int list, jsstring) env" where
  "test_env p =
     \<lparr>NVIDIA_API_KEY = Some (js ''key''), embeddingProvider = p,
      indexRanking = (\<lambda>v rs. rs), totalRecordCount = (\<lambda>h idx. length (idx (target h))),
      zeroVector = [], relevanceScore = (\<lambda>v m. 0), generateAnswer = (\<lambda>q sources. Inr (js ''ok'')),
      pdfText = Inr, pptxText = Inr, docxText = Inr, fileText = (\<lambda>b. b),
      uploadTimestamp = 1700000000000, isoString = (\<lambda>k. js ''2023-11-14T22:13:20.000Z'')\<rparr>"

text \<open>The records of one document of \<open>n\<close> chunks, as an upload writes them.\<close>

definition big_document :: "nat \<Rightarrow> int list index_record list" where
  "big_document n = map (\<lambda>k. chunk_record (test_env denying) (js ''big.txt'') k (js ''x'') []) [0..<n]"


text \<open>Reading a decimal numeral back (the inverse of \<open>decimal\<close>).\<close>

definition undecimal :: "jsstring \<Rightarrow> nat" where
  "undecimal s = foldl (\<lambda>a d. 10 * a + (unat d - 48)) 0 s"

section \<open>Strings, splitting and loops\<close>

lemma is_space_LF: "is_space LF" by (simp add: is_space_def LF_def)
lemma is_space_SP: "is_space SP" by (simp add: is_space_def SP_def)

lemma trim_eq_Nil: "trim s = [] \<longleftrightarrow> (\<forall>c\<in>set s. is_space c)"
proof
  assume "trim s = []"
  then have "\<forall>c\<in>set (dropWhile is_space s). is_space c"
    by (simp add: trim_def)
  then have "dropWhile is_space s = []"
    by (metis hd_dropWhile list.set_sel(1))
  then show "\<forall>c\<in>set s. is_space c" by simp
next
  assume "\<forall>c\<in>set s. is_space c"
  then have d: "dropWhile is_space s = []" by simp
  show "trim s = []" unfolding trim_def d by simp
qed

lemma dropWhile_none: "\<forall>c\<in>set w. \<not> P c \<Longrightarrow> dropWhile P w = w"
  by (cases w) auto

lemma trim_nospace: "\<forall>c\<in>set w. \<not> is_space c \<Longrightarrow> trim w = w"
  unfolding trim_def by (simp add: dropWhile_none)

lemma dropWhile_last: "dropWhile P xs \<noteq> [] \<Longrightarrow> last (dropWhile P xs) = last xs"
  by (induction xs) (auto split: if_splits)

lemma dropWhile_hd: "xs \<noteq> [] \<Longrightarrow> \<not> P (hd xs) \<Longrightarrow> dropWhile P xs = xs"
  by (cases xs) auto

lemma trim_trim: "trim (trim s) = trim s"
proof -
  let ?t = "dropWhile is_space s"
  let ?u = "dropWhile is_space (rev ?t)"
  have u: "dropWhile is_space (rev ?u) = rev ?u"
  proof (cases "?u = []")
    case True
    show ?thesis unfolding True by simp
  next
    case False
    have t: "?t \<noteq> []"
    proof
      assume e: "?t = []"
      have "?u = []" unfolding e by simp
      with False show False by contradiction
    qed
    from False have "last ?u = last (rev ?t)" by (rule dropWhile_last)
    also have "\<dots> = hd ?t" using t by (simp add: last_rev)
    finally have "\<not> is_space (last ?u)" using t hd_dropWhile by metis
    moreover have "hd (rev ?u) = last ?u" using False by (simp add: hd_rev)
    moreover have "rev ?u \<noteq> []" using False by (simp only: rev_is_Nil_conv not_False_eq_True)
    ultimately show ?thesis by (metis dropWhile_hd)
  qed
  have "trim (trim s) = rev (dropWhile is_space (rev (dropWhile is_space (rev ?u))))"
    by (simp add: trim_def)
  also have "\<dots> = rev (dropWhile is_space ?u)" by (simp add: u)
  also have "\<dots> = rev ?u" by simp
  finally show ?thesis by (simp add: trim_def)
qed

lemma set_trim: "set (trim s) \<subseteq> set s"
  by (metis trim_def set_rev set_dropWhileD subsetI)

lemma split_ws_from_nospace:
  "\<forall>c\<in>set cur. \<not> is_space c \<Longrightarrow> w \<in> set (split_ws_from cur s) \<Longrightarrow> c \<in> set w \<Longrightarrow> \<not> is_space c"
  by (induction cur s arbitrary: w rule: split_ws_from.induct) (auto split: if_splits)

lemma split_ws_nospace: "w \<in> set (split_ws s) \<Longrightarrow> c \<in> set w \<Longrightarrow> \<not> is_space c"
  unfolding split_ws_def by (rule split_ws_from_nospace [of "[]"]) auto

lemma split_ws_from_nonempty:
  "cur \<noteq> [] \<or> (\<exists>c\<in>set s. \<not> is_space c) \<Longrightarrow> \<exists>w\<in>set (split_ws_from cur s). w \<noteq> []"
proof (induction cur s rule: split_ws_from.induct)
  case (1 cur)
  then show ?case by simp
next
  case (2 cur c cs)
  show ?case
  proof (cases "is_space c")
    case True
    show ?thesis
    proof (cases "cur = []")
      case False
      then show ?thesis using True by simp
    next
      case cur: True
      with "2.prems" True obtain x where x: "x \<in> set cs" "\<not> is_space x" by auto
      then have "x \<in> set (dropWhile is_space cs)"
        by (metis UnE set_append set_takeWhileD takeWhile_dropWhile_id)
      with x "2.IH"(1) [OF True] True show ?thesis by auto
    qed
  next
    case False
    with "2.IH"(2) show ?thesis by simp
  qed
qed

lemma split_ws_nonempty: "\<exists>c\<in>set s. \<not> is_space c \<Longrightarrow> \<exists>w\<in>set (split_ws s). w \<noteq> []"
  unfolding split_ws_def by (rule split_ws_from_nonempty) simp

lemma split_paragraphs_from_nonws:
  "(\<exists>c\<in>set cur \<union> set s. \<not> is_space c) \<Longrightarrow>
   \<exists>p\<in>set (split_paragraphs_from cur s). \<exists>c\<in>set p. \<not> is_space c"
proof (induction cur s rule: split_paragraphs_from.induct)
  case (1 cur)
  then show ?case by simp
next
  case (2 cur c)
  then show ?case by simp
next
  case (3 cur c d cs)
  show ?case
  proof (cases "c = LF \<and> d = LF")
    case True
    show ?thesis
    proof (cases "\<exists>x\<in>set cur. \<not> is_space x")
      case True
      then show ?thesis using \<open>c = LF \<and> d = LF\<close> by simp
    next
      case False
      with "3.prems" True is_space_LF obtain x where x: "x \<in> set cs" "\<not> is_space x" by auto
      then have "x \<noteq> LF" using is_space_LF by auto
      with x have "x \<in> set (dropWhile (\<lambda>x. x = LF) cs)"
        by (metis (full_types) UnE set_append set_takeWhileD takeWhile_dropWhile_id)
      with x "3.IH"(1) [OF True] True show ?thesis by auto
    qed
  next
    case False
    with "3.IH"(2) [OF False] "3.prems" show ?thesis by auto
  qed
qed

lemma split_paragraphs_nonws:
  "\<exists>c\<in>set text. \<not> is_space c \<Longrightarrow> \<exists>p\<in>set (split_paragraphs text). \<exists>c\<in>set p. \<not> is_space c"
  unfolding split_paragraphs_def by (rule split_paragraphs_from_nonws) simp

lemma for_of_rule:
  assumes "I st"
    and "\<And>st x. I st \<Longrightarrow> x \<in> set xs \<Longrightarrow> \<exists>st'. body st x = Some st' \<and> I st'"
  shows "\<exists>st'. for_of body xs st = Some st' \<and> I st'"
  using assms
proof (induction xs arbitrary: st)
  case Nil
  then show ?case by simp
next
  case (Cons x xs)
  from Cons.prems obtain st1 where st1: "body st x = Some st1" "I st1" by fastforce
  have "\<exists>st'. for_of body xs st1 = Some st' \<and> I st'"
    by (rule Cons.IH [OF st1(2)]) (use Cons.prems(2) in auto)
  with st1 show ?case by simp
qed

lemma for_of_reach:
  assumes "for_of body xs st = Some st'"
    and "Q st \<or> (\<exists>x\<in>set xs. R x)"
    and "\<And>st x st'. body st x = Some st' \<Longrightarrow> Q st \<or> R x \<Longrightarrow> Q st'"
  shows "Q st'"
  using assms(1,2)
proof (induction xs arbitrary: st)
  case Nil
  then show ?case by simp
next
  case (Cons x xs)
  from Cons.prems(1) obtain st1 where st1: "body st x = Some st1" "for_of body xs st1 = Some st'"
    by (auto split: option.splits)
  show ?case
  proof (cases "Q st \<or> R x")
    case True
    with st1(1) assms(3) have "Q st1" by blast
    with Cons.IH [OF st1(2)] show ?thesis by blast
  next
    case False
    with Cons.prems(2) have "\<exists>x\<in>set xs. R x" by auto
    with Cons.IH [OF st1(2)] show ?thesis by blast
  qed
qed

section \<open>chunkText\<close>

lemma slice_loop_Some:
  assumes "1 \<le> max'"
  shows "\<exists>r. slice_loop word max' i result = Some (result @ r) \<and>
             (\<forall>p\<in>set r. p \<noteq> [] \<and> set p \<subseteq> set word \<and> length p \<le> max') \<and>
             (i < length word \<longrightarrow> r \<noteq> [])"
proof (induction "length word - i" arbitrary: i result rule: less_induct)
  case less
  show ?case
  proof (cases "i < length word")
    case False
    then show ?thesis by (subst slice_loop.simps) simp
  next
    case True
    let ?p = "take max' (drop i word)"
    have "length word - (i + max') < length word - i" using True assms by arith
    from less [OF this, of "result @ [?p]"] obtain r where
      r: "slice_loop word max' (i + max') (result @ [?p]) = Some ((result @ [?p]) @ r)"
         "\<forall>p\<in>set r. p \<noteq> [] \<and> set p \<subseteq> set word \<and> length p \<le> max'"
      by blast
    have p: "?p \<noteq> []" "length ?p \<le> max'" using True assms by auto
    have ps: "set ?p \<subseteq> set word"
      by (meson set_take_subset set_drop_subset subset_trans)
    have "slice_loop word max' i result = Some (result @ (?p # r))"
      using True r(1) by (subst slice_loop.simps) simp
    moreover have "\<forall>q\<in>set (?p # r). q \<noteq> [] \<and> set q \<subseteq> set word \<and> length q \<le> max'"
      using p ps r(2) by simp
    ultimately show ?thesis by blast
  qed
qed

lemma trim_append_nonempty: "trim a \<noteq> [] \<Longrightarrow> trim (a @ b @ c) \<noteq> []"
  by (auto simp: trim_eq_Nil)


lemma splitByLength_body_ok:
  assumes m: "1 \<le> max'" and inv: "pieces_ok st" and w: "\<forall>c\<in>set word. \<not> is_space c"
  shows "\<exists>st'. splitByLength_body max' st word = Some st' \<and> pieces_ok st'"
proof -
  obtain result current where st: "st = (result, current)" by (cases st)
  let ?result1 = "if current \<noteq> [] then result @ [trim current] else result"
  from inv st have r1: "\<forall>p\<in>set ?result1. p \<noteq> [] \<and> trim p = p"
    by (auto simp: pieces_ok_def trim_trim)
  have wt: "word = [] \<or> trim word \<noteq> []" using w by (cases word) (auto simp: trim_nospace)
  show ?thesis
  proof (cases "length word > max'")
    case True
    from slice_loop_Some [OF m, of word 0 ?result1] obtain r where
      r: "slice_loop word max' 0 ?result1 = Some (?result1 @ r)"
         "\<forall>p\<in>set r. p \<noteq> [] \<and> set p \<subseteq> set word \<and> length p \<le> max'"
      by (elim exE conjE) (rule that)
    have "\<forall>p\<in>set r. p \<noteq> [] \<and> trim p = p"
    proof
      fix p assume "p \<in> set r"
      with r(2) have "p \<noteq> []" "set p \<subseteq> set word" by auto
      with w have "\<forall>c\<in>set p. \<not> is_space c" by auto
      with \<open>p \<noteq> []\<close> show "p \<noteq> [] \<and> trim p = p" by (simp add: trim_nospace)
    qed
    with r1 have "pieces_ok (?result1 @ r, [])"
      unfolding pieces_ok_def fst_conv snd_conv set_append by blast
    moreover have "splitByLength_body max' st word = Some (?result1 @ r, [])"
      using True r(1) st by simp
    ultimately show ?thesis by blast
  next
    case False
    show ?thesis
    proof (cases "length current + length word + 1 > max'")
      case True
      have "splitByLength_body max' st word = Some (?result1, word)"
        using False True st by simp
      moreover have "pieces_ok (?result1, word)"
        unfolding pieces_ok_def fst_conv snd_conv using r1 wt by blast
      ultimately show ?thesis by blast
    next
      case F2: False
      let ?c = "current @ (if current \<noteq> [] then [SP] else []) @ word"
      have "splitByLength_body max' st word = Some (result, ?c)"
        using False F2 st by simp
      moreover have "?c = [] \<or> trim ?c \<noteq> []"
      proof (cases "current = []")
        case True
        then show ?thesis using wt by simp
      next
        case False
        with inv st have "trim current \<noteq> []" by (simp add: pieces_ok_def)
        then have "trim ?c \<noteq> []" by (rule trim_append_nonempty)
        then show ?thesis by blast
      qed
      moreover have "\<forall>p\<in>set result. p \<noteq> [] \<and> trim p = p"
        using inv st by (simp add: pieces_ok_def)
      ultimately have "splitByLength_body max' st word = Some (result, ?c) \<and> pieces_ok (result, ?c)"
        unfolding pieces_ok_def fst_conv snd_conv by blast
      then show ?thesis by blast
    qed
  qed
qed

lemma splitByLength_body_reach:
  assumes m: "1 \<le> max'" and b: "splitByLength_body max' st word = Some st'"
    and q: "(fst st \<noteq> [] \<or> snd st \<noteq> []) \<or> word \<noteq> []"
  shows "fst st' \<noteq> [] \<or> snd st' \<noteq> []"
proof -
  obtain result current where st: "st = (result, current)" by (cases st)
  let ?result1 = "if current \<noteq> [] then result @ [trim current] else result"
  show ?thesis
  proof (cases "length word > max'")
    case True
    from True have "0 < length word" by (cases word) simp_all
    with slice_loop_Some [OF m, of word 0 ?result1] obtain r where
      r: "slice_loop word max' 0 ?result1 = Some (?result1 @ r)" "r \<noteq> []"
      by (elim exE conjE) (erule (1) impE, rule that)
    have "splitByLength_body max' st word = Some (?result1 @ r, [])"
      using True r(1) st by simp
    with b have "st' = (?result1 @ r, [])" by simp
    with r(2) show ?thesis by simp
  next
    case False
    with b st q show ?thesis by (auto split: if_splits)
  qed
qed

declare splitByLength_body.simps [simp del]

lemma splitByLength_Some:
  assumes m: "1 \<le> max'"
  shows "\<exists>pieces. splitByLength str max' = Some pieces \<and>
           (\<forall>p\<in>set pieces. p \<noteq> [] \<and> trim p = p) \<and>
           ((\<exists>c\<in>set str. \<not> is_space c) \<longrightarrow> pieces \<noteq> [])"
proof -
  have "\<exists>st'. for_of (splitByLength_body max') (split_ws str) ([], []) = Some st' \<and> pieces_ok st'"
  proof (rule for_of_rule)
    show "pieces_ok ([], [])" by (simp add: pieces_ok_def)
  next
    fix st word assume "pieces_ok st" "word \<in> set (split_ws str)"
    then show "\<exists>st'. splitByLength_body max' st word = Some st' \<and> pieces_ok st'"
      using splitByLength_body_ok [OF m] split_ws_nospace by blast
  qed
  then obtain result current where
    run: "for_of (splitByLength_body max') (split_ws str) ([], []) = Some (result, current)"
    and ok: "pieces_ok (result, current)" by auto
  let ?pieces = "if trim current \<noteq> [] then result @ [trim current] else result"
  have eq: "splitByLength str max' = Some ?pieces" using run by (simp add: splitByLength_def)
  have good: "\<forall>p\<in>set ?pieces. p \<noteq> [] \<and> trim p = p"
    using ok by (auto simp: pieces_ok_def trim_trim)
  have ne: "?pieces \<noteq> []" if "\<exists>c\<in>set str. \<not> is_space c"
  proof -
    from that have "\<exists>w\<in>set (split_ws str). w \<noteq> []" by (rule split_ws_nonempty)
    then have "(fst ([]::jsstring list, []::jsstring) \<noteq> [] \<or> snd ([]::jsstring list, []::jsstring) \<noteq> []) \<or>
               (\<exists>w\<in>set (split_ws str). w \<noteq> [])" by blast
    from for_of_reach [where Q = "\<lambda>st. fst st \<noteq> [] \<or> snd st \<noteq> []" and R = "\<lambda>w. w \<noteq> []", OF run this]
    have "result \<noteq> [] \<or> current \<noteq> []"
      using splitByLength_body_reach [OF m] by auto
    with ok show ?thesis by (auto simp: pieces_ok_def)
  qed
  from eq good ne show ?thesis by blast
qed

lemma chunkText_body_cases:
  assumes m: "1 \<le> maxLength"
  obtains
    (split) pieces where "splitByLength para maxLength = Some pieces"
      and "\<forall>p\<in>set pieces. p \<noteq> [] \<and> trim p = p"
      and "(\<exists>c\<in>set para. \<not> is_space c) \<longrightarrow> pieces \<noteq> []"
      and "chunkText_body maxLength (chunks, cur) para =
             Some ((if cur \<noteq> [] then chunks @ [trim cur] else chunks) @ pieces, [])"
  | (flush) "cur \<noteq> []"
      and "chunkText_body maxLength (chunks, cur) para = Some (chunks @ [trim cur], para)"
  | (pack) "chunkText_body maxLength (chunks, cur) para =
             Some (chunks, cur @ (if cur \<noteq> [] then [LF, LF] else []) @ para)"
proof (cases "length para > maxLength")
  case True
  from splitByLength_Some [OF m, of para] obtain pieces where
    p: "splitByLength para maxLength = Some pieces"
       "\<forall>p\<in>set pieces. p \<noteq> [] \<and> trim p = p"
       "(\<exists>c\<in>set para. \<not> is_space c) \<longrightarrow> pieces \<noteq> []"
    by (elim exE conjE) (rule that)
  have "chunkText_body maxLength (chunks, cur) para =
          Some ((if cur \<noteq> [] then chunks @ [trim cur] else chunks) @ pieces, [])"
    using True p(1) by simp
  with p show ?thesis by (rule split)
next
  case False
  show ?thesis
  proof (cases "length cur + length para > maxLength \<and> cur \<noteq> []")
    case True
    then have "chunkText_body maxLength (chunks, cur) para = Some (chunks @ [trim cur], para)"
      using False by simp
    with True show ?thesis by (intro flush) simp_all
  next
    case F2: False
    have "chunkText_body maxLength (chunks, cur) para =
             Some (chunks, cur @ (if cur \<noteq> [] then [LF, LF] else []) @ para)"
      using False F2 by (simp only: chunkText_body.simps if_False)
    then show ?thesis by (rule pack)
  qed
qed

declare chunkText_body.simps [simp del]

lemma chunkText_body_trimmed:
  assumes m: "1 \<le> maxLength" and inv: "\<forall>p\<in>set (fst st). trim p = p"
  shows "\<exists>st'. chunkText_body maxLength st para = Some st' \<and> (\<forall>p\<in>set (fst st'). trim p = p)"
proof -
  obtain chunks cur where st: "st = (chunks, cur)" by (cases st)
  from inv st have c: "\<forall>p\<in>set chunks. trim p = p" by simp
  then have c1: "\<forall>p\<in>set (if cur \<noteq> [] then chunks @ [trim cur] else chunks). trim p = p"
    by (simp add: trim_trim)
  show ?thesis
  proof (rule chunkText_body_cases [OF m, of para chunks cur], goal_cases)
    case (1 pieces)
    note split = 1
    from c1 split(2) have "\<forall>p\<in>set ((if cur \<noteq> [] then chunks @ [trim cur] else chunks) @ pieces). trim p = p"
      by (metis UnE set_append)
    with split(4) show ?thesis unfolding st by simp
  next
    case 2
    note flush = 2
    from c have "\<forall>p\<in>set (chunks @ [trim cur]). trim p = p" by (simp add: trim_trim)
    with flush(2) show ?thesis unfolding st by simp
  next
    case 3
    note pack = 3
    with c show ?thesis unfolding st by simp
  qed
qed

lemma chunkText_body_reach:
  assumes m: "1 \<le> maxLength" and b: "chunkText_body maxLength st para = Some st'"
    and q: "(fst st \<noteq> [] \<or> (\<exists>c\<in>set (snd st). \<not> is_space c)) \<or> (\<exists>c\<in>set para. \<not> is_space c)"
  shows "fst st' \<noteq> [] \<or> (\<exists>c\<in>set (snd st'). \<not> is_space c)"
proof -
  obtain chunks cur where st: "st = (chunks, cur)" by (cases st)
  show ?thesis
  proof (rule chunkText_body_cases [OF m, of para chunks cur], goal_cases)
    case (1 pieces)
    note split = 1
    from b split(4) st have st': "fst st' = (if cur \<noteq> [] then chunks @ [trim cur] else chunks) @ pieces"
      by (metis fst_conv option.inject)
    from q st consider "chunks \<noteq> []" | "cur \<noteq> []" | "\<exists>c\<in>set para. \<not> is_space c"
      by (cases cur) auto
    then have "fst st' \<noteq> []"
    proof cases
      case 1 then show ?thesis unfolding st' by simp
    next
      case 2 then show ?thesis unfolding st' by simp
    next
      case 3 with split(3) have "pieces \<noteq> []" by blast
      then show ?thesis unfolding st' by simp
    qed
    then show ?thesis by blast
  next
    case 2
    note flush = 2
    with b st have "fst st' = chunks @ [trim cur]" by (metis fst_conv option.inject)
    then show ?thesis by simp
  next
    case 3
    note pack = 3
    with b st have st': "st' = (chunks, cur @ (if cur \<noteq> [] then [LF, LF] else []) @ para)"
      by (metis option.inject)
    from q st show ?thesis unfolding st' by auto
  qed
qed

lemma chunkText_body_nonempty:
  assumes m: "1 \<le> maxLength" and para: "para = [] \<or> trim para \<noteq> []"
    and inv: "(\<forall>p\<in>set (fst st). p \<noteq> []) \<and> (snd st = [] \<or> trim (snd st) \<noteq> [])"
  shows "\<exists>st'. chunkText_body maxLength st para = Some st' \<and>
           ((\<forall>p\<in>set (fst st'). p \<noteq> []) \<and> (snd st' = [] \<or> trim (snd st') \<noteq> []))"
proof -
  obtain chunks cur where st: "st = (chunks, cur)" by (cases st)
  from inv st have c: "\<forall>p\<in>set chunks. p \<noteq> []" and cur: "cur = [] \<or> trim cur \<noteq> []" by simp_all
  then have c1: "\<forall>p\<in>set (if cur \<noteq> [] then chunks @ [trim cur] else chunks). p \<noteq> []"
    by auto
  show ?thesis
  proof (rule chunkText_body_cases [OF m, of para chunks cur], goal_cases)
    case (1 pieces)
    note split = 1
    from c1 split(2) have "\<forall>p\<in>set ((if cur \<noteq> [] then chunks @ [trim cur] else chunks) @ pieces). p \<noteq> []"
      by (metis UnE set_append)
    with split(4) have "chunkText_body maxLength (chunks, cur) para =
             Some ((if cur \<noteq> [] then chunks @ [trim cur] else chunks) @ pieces, []) \<and>
           ((\<forall>p\<in>set (fst ((if cur \<noteq> [] then chunks @ [trim cur] else chunks) @ pieces, [] :: jsstring)). p \<noteq> []) \<and>
            (snd ((if cur \<noteq> [] then chunks @ [trim cur] else chunks) @ pieces, [] :: jsstring) = [] \<or>
             trim (snd ((if cur \<noteq> [] then chunks @ [trim cur] else chunks) @ pieces, [] :: jsstring)) \<noteq> []))"
      unfolding fst_conv snd_conv by (intro conjI disjI1 refl)
    then show ?thesis unfolding st by (rule exI)
  next
    case 2
    note flush = 2
    with cur c have "\<forall>p\<in>set (chunks @ [trim cur]). p \<noteq> []" by simp
    with flush(2) para have "chunkText_body maxLength (chunks, cur) para = Some (chunks @ [trim cur], para) \<and>
           ((\<forall>p\<in>set (fst (chunks @ [trim cur], para)). p \<noteq> []) \<and>
            (snd (chunks @ [trim cur], para) = [] \<or> trim (snd (chunks @ [trim cur], para)) \<noteq> []))"
      unfolding fst_conv snd_conv by (intro conjI)
    then show ?thesis unfolding st by (rule exI)
  next
    case 3
    note pack = 3
    let ?c = "cur @ (if cur \<noteq> [] then [LF, LF] else []) @ para"
    have "?c = [] \<or> trim ?c \<noteq> []"
    proof (cases "cur = []")
      case True
      then show ?thesis using para by simp
    next
      case False
      with cur have "trim cur \<noteq> []" by simp
      then have "trim ?c \<noteq> []" by (rule trim_append_nonempty)
      then show ?thesis by blast
    qed
    with c have "(\<forall>p\<in>set (fst (chunks, ?c)). p \<noteq> []) \<and> (snd (chunks, ?c) = [] \<or> trim (snd (chunks, ?c)) \<noteq> [])"
      unfolding fst_conv snd_conv by blast
    with pack have "chunkText_body maxLength (chunks, cur) para = Some (chunks, ?c) \<and>
       ((\<forall>p\<in>set (fst (chunks, ?c)). p \<noteq> []) \<and> (snd (chunks, ?c) = [] \<or> trim (snd (chunks, ?c)) \<noteq> []))"
      by (rule conjI)
    then show ?thesis unfolding st by (rule exI)
  qed
qed

lemma chunkText_unfold:
  assumes "for_of (chunkText_body maxLength) (split_paragraphs text) ([], []) = Some (chunks, cur)"
  shows "chunkText text maxLength =
           Some (if (if trim cur \<noteq> [] then chunks @ [trim cur] else chunks) \<noteq> []
                 then (if trim cur \<noteq> [] then chunks @ [trim cur] else chunks)
                 else [take maxLength (trim text)])"
  using assms by (simp add: chunkText_def Let_def)

lemma chunkText_run_nonblank:
  assumes m: "1 \<le> maxLength"
    and run: "for_of (chunkText_body maxLength) (split_paragraphs text) ([], []) = Some (chunks, cur)"
    and t: "\<exists>c\<in>set text. \<not> is_space c"
  shows "chunks \<noteq> [] \<or> trim cur \<noteq> []"
proof -
  from t have "\<exists>p\<in>set (split_paragraphs text). \<exists>c\<in>set p. \<not> is_space c"
    by (rule split_paragraphs_nonws)
  then have "(fst ([]::jsstring list, []::jsstring) \<noteq> [] \<or>
              (\<exists>c\<in>set (snd ([]::jsstring list, []::jsstring)). \<not> is_space c)) \<or>
             (\<exists>p\<in>set (split_paragraphs text). \<exists>c\<in>set p. \<not> is_space c)" by blast
  from for_of_reach [where Q = "\<lambda>st. fst st \<noteq> [] \<or> (\<exists>c\<in>set (snd st). \<not> is_space c)"
      and R = "\<lambda>p. \<exists>c\<in>set p. \<not> is_space c", OF run this]
  have "chunks \<noteq> [] \<or> (\<exists>c\<in>set cur. \<not> is_space c)"
    using chunkText_body_reach [OF m] by auto
  then show ?thesis by (auto simp: trim_eq_Nil)
qed

text \<open>
  Claim C10: for every text and every \<open>maxLength \<ge> 1\<close>, \<open>chunkText\<close> returns, and every
  string it returns equals its own trim: no chunk has leading or trailing white space.
\<close>

theorem chunkText_chunks_trimmed:
  assumes m: "1 \<le> maxLength"
  shows "\<exists>chunks. chunkText text maxLength = Some chunks \<and> (\<forall>c\<in>set chunks. trim c = c)"
proof -
  have "\<exists>st'. for_of (chunkText_body maxLength) (split_paragraphs text) ([], []) = Some st' \<and>
          (\<forall>p\<in>set (fst st'). trim p = p)"
    by (rule for_of_rule) (simp, rule chunkText_body_trimmed [OF m])
  then obtain chunks cur where
    run: "for_of (chunkText_body maxLength) (split_paragraphs text) ([], []) = Some (chunks, cur)"
    and inv: "\<forall>p\<in>set chunks. trim p = p" by auto
  let ?chunks' = "if trim cur \<noteq> [] then chunks @ [trim cur] else chunks"
  note eq = chunkText_unfold [OF run]
  have tr: "\<forall>p\<in>set ?chunks'. trim p = p" using inv by (simp add: trim_trim)
  show ?thesis
  proof (cases "?chunks' = []")
    case False
    then have "(if ?chunks' \<noteq> [] then ?chunks' else [take maxLength (trim text)]) = ?chunks'"
      by (rule if_P)
    with eq have "chunkText text maxLength = Some ?chunks'" by (simp only:)
    with tr show ?thesis by blast
  next
    case True
    then have e: "chunks = []" "trim cur = []" by (auto split: if_splits)
    have "trim text = []"
    proof (rule ccontr)
      assume "trim text \<noteq> []"
      then have "\<exists>c\<in>set text. \<not> is_space c" by (simp add: trim_eq_Nil)
      from chunkText_run_nonblank [OF m run this] e show False by simp
    qed
    with eq True have "chunkText text maxLength = Some [[]]" by simp
    moreover have "trim [] = []" by (simp add: trim_def)
    ultimately show ?thesis by simp
  qed
qed

text \<open>
  Where no paragraph is blank the chunks are not empty. For a text that has a character
  other than white space, in which every paragraph (every piece between blank-line runs)
  is empty or has such a character, and for every \<open>maxLength \<ge> 1\<close>: \<open>chunkText\<close> returns
  a non-empty sequence and none of its strings is empty.
\<close>

lemma chunkText_no_empty_chunk_without_blank_paragraphs:
  assumes m: "1 \<le> maxLength"
    and t: "trim text \<noteq> []"
    and paras: "\<forall>p\<in>set (split_paragraphs text). p = [] \<or> trim p \<noteq> []"
  shows "\<exists>chunks. chunkText text maxLength = Some chunks \<and> chunks \<noteq> [] \<and> (\<forall>c\<in>set chunks. c \<noteq> [])"
proof -
  have "\<exists>st'. for_of (chunkText_body maxLength) (split_paragraphs text) ([], []) = Some st' \<and>
          ((\<forall>p\<in>set (fst st'). p \<noteq> []) \<and> (snd st' = [] \<or> trim (snd st') \<noteq> []))"
  proof (rule for_of_rule)
    show "(\<forall>p\<in>set (fst ([]::jsstring list, []::jsstring)). p \<noteq> []) \<and>
          (snd ([]::jsstring list, []::jsstring) = [] \<or> trim (snd ([]::jsstring list, []::jsstring)) \<noteq> [])"
      by simp
  next
    fix st :: "jsstring list \<times> jsstring" and para
    assume "(\<forall>p\<in>set (fst st). p \<noteq> []) \<and> (snd st = [] \<or> trim (snd st) \<noteq> [])"
      and "para \<in> set (split_paragraphs text)"
    with paras show "\<exists>st'. chunkText_body maxLength st para = Some st' \<and>
          ((\<forall>p\<in>set (fst st'). p \<noteq> []) \<and> (snd st' = [] \<or> trim (snd st') \<noteq> []))"
      by (intro chunkText_body_nonempty [OF m]) blast+
  qed
  then obtain chunks cur where
    run: "for_of (chunkText_body maxLength) (split_paragraphs text) ([], []) = Some (chunks, cur)"
    and inv: "\<forall>p\<in>set chunks. p \<noteq> []" by auto
  let ?chunks' = "if trim cur \<noteq> [] then chunks @ [trim cur] else chunks"
  note eq = chunkText_unfold [OF run]
  have ne: "\<forall>p\<in>set ?chunks'. p \<noteq> []" using inv by simp
  show ?thesis
  proof (cases "?chunks' = []")
    case False
    then have "(if ?chunks' \<noteq> [] then ?chunks' else [take maxLength (trim text)]) = ?chunks'"
      by (rule if_P)
    with eq have "chunkText text maxLength = Some ?chunks'" by (simp only:)
    with ne False show ?thesis by blast
  next
    case True
    with eq have "chunkText text maxLength = Some [take maxLength (trim text)]" by simp
    moreover have "take maxLength (trim text) \<noteq> []" using m t by (cases "trim text"; cases maxLength) auto
    ultimately show ?thesis by simp
  qed
qed

lemmas chunk_eval =
  chunkText_def chunkText_body.simps splitByLength_def splitByLength_body.simps split_ws_def
  split_paragraphs_def slice_loop.simps js_def LF_def SP_def trim_def is_space_def

theorem chunkText_chunks_trimmed_witness:
  "chunkText (js ''hello world abcdefghij'') 4 =
     Some (map js [''hell'', ''o'', ''worl'', ''d'', ''abcd'', ''efgh'', ''ij'']) \<and>
   list_all (\<lambda>c. trim c = c) (map js [''hell'', ''o'', ''worl'', ''d'', ''abcd'', ''efgh'', ''ij''])"
proof -
  have m: "(1::nat) \<le> 4" by simp
  from chunkText_chunks_trimmed [OF m, of "js ''hello world abcdefghij''"] obtain chunks where
    c: "chunkText (js ''hello world abcdefghij'') 4 = Some chunks" "\<forall>c\<in>set chunks. trim c = c"
    by blast
  have e: "chunkText (js ''hello world abcdefghij'') 4 =
     Some (map js [''hell'', ''o'', ''worl'', ''d'', ''abcd'', ''efgh'', ''ij''])"
    by (simp add: chunk_eval)
  with c(1) have "chunks = map js [''hell'', ''o'', ''worl'', ''d'', ''abcd'', ''efgh'', ''ij'']"
    by (simp only: option.inject)
  with c(2) e show ?thesis by (simp only: list_all_iff simp_thms)
qed

text \<open>
  For a text of white space only no chunk is pushed and the fallback
  \<^verbatim>\<open>[text.trim().slice(0, maxLength)]\<close> is returned; its one string is empty. The upload
  route rejects such a text before it calls \<open>chunkText\<close>.
\<close>

lemma chunkText_whitespace_only_fallback:
  "js '' '' \<noteq> [] \<and> (1::nat) \<le> 5 \<and> chunkText (js '' '') 5 = Some [[]]"
  by (simp add: chunk_eval)

lemma split_paragraphs_from_plain:
  "LF \<notin> set s \<Longrightarrow> split_paragraphs_from cur s = [cur @ s]"
proof (induction s arbitrary: cur)
  case Nil
  then show ?case by simp
next
  case (Cons c s)
  then show ?case by (cases s) auto
qed

lemma split_paragraphs_from_break:
  "LF \<notin> set s \<Longrightarrow>
   split_paragraphs_from cur (s @ LF # LF # rest) =
     (cur @ s) # split_paragraphs_from [] (dropWhile (\<lambda>x. x = LF) rest)"
proof (induction s arbitrary: cur)
  case Nil
  then show ?case by simp
next
  case (Cons c s)
  then show ?case by (cases s) auto
qed

text \<open>
  Claim C8 says that no returned chunk is empty. A paragraph of white space only that is
  flushed before the end of the text is pushed as an empty chunk: the two flushes inside
  the loop test \<^verbatim>\<open>currentChunk\<close>, which is truthy for \<^verbatim>\<open>" "\<close>, and push its trim, while
  the flush after the loop tests \<^verbatim>\<open>currentChunk.trim()\<close>. So \<^verbatim>\<open>chunkText(" \n\nab", 2)\<close>
  returns an empty chunk first; and with the route's \<open>maxLength = 2000\<close>, a text that
  passes the route's check for a non-blank text (2000 letters, a blank line, one space,
  a blank line, 2000 letters) is returned as three chunks, the second one empty.
\<close>

theorem chunkText_blank_paragraph_gives_empty_chunk:
  "chunkText (js '' '' @ [LF, LF] @ js ''ab'') 2 = Some [[], js ''ab''] \<and>
   trim (replicate 2000 0x61 @ [LF, LF, SP, LF, LF] @ replicate 2000 0x62) \<noteq> [] \<and>
   chunkText (replicate 2000 0x61 @ [LF, LF, SP, LF, LF] @ replicate 2000 0x62) 2000 =
     Some [replicate 2000 0x61, [], replicate 2000 0x62]"
proof -
  let ?A = "replicate 2000 (0x61 :: jschar)" and ?B = "replicate 2000 (0x62 :: jschar)"
  let ?text = "?A @ [LF, LF, SP, LF, LF] @ ?B"
  have small: "chunkText (js '' '' @ [LF, LF] @ js ''ab'') 2 = Some [[], js ''ab'']"
    by (simp add: chunk_eval)
  have nA: "LF \<notin> set ?A" and nB: "LF \<notin> set ?B" and nS: "LF \<notin> set [SP]"
    by (simp_all add: LF_def SP_def)
  have tA: "trim ?A = ?A" and tB: "trim ?B = ?B"
    by (rule trim_nospace, simp add: is_space_def)+
  have tS: "trim [SP] = []" by (simp add: trim_def is_space_SP)
  have "\<not> is_space (0x61 :: jschar)" by (simp add: is_space_def)
  then have nonblank: "trim ?text \<noteq> []" by (auto simp: trim_eq_Nil)
  have "split_paragraphs ?text = ?A # split_paragraphs_from [] ([SP] @ LF # LF # ?B)"
    using split_paragraphs_from_break [OF nA, of "[]" "[SP] @ LF # LF # ?B"]
    by (simp add: split_paragraphs_def LF_def SP_def)
  also have "split_paragraphs_from [] ([SP] @ LF # LF # ?B) = [SP] # split_paragraphs_from [] ?B"
    using split_paragraphs_from_break [OF nS, of "[]" ?B] by (simp add: LF_def)
  also have "split_paragraphs_from [] ?B = [?B]"
    using split_paragraphs_from_plain [OF nB, of "[]"] by simp
  finally have paras: "split_paragraphs ?text = [?A, [SP], ?B]" .
  have run: "for_of (chunkText_body 2000) [?A, [SP], ?B] ([], []) = Some ([?A, []], ?B)"
    by (simp add: chunkText_body.simps tA tS)
  have big: "chunkText ?text 2000 = Some [?A, [], ?B]"
    using paras run tB by (simp add: chunkText_def Let_def)
  from small nonblank big show ?thesis by (intro conjI)
qed

text \<open>
  Claim C2 bounds every chunk by \<open>maxLength\<close>. The test that packs a paragraph into the
  current chunk compares \<^verbatim>\<open>currentChunk.length + para.length\<close> with \<open>maxLength\<close> and leaves
  the two-character separator out, so two paragraphs of two characters are packed into
  one chunk of six characters under \<open>maxLength = 4\<close>.
\<close>

theorem chunkText_packed_chunk_too_long:
  "chunkText (js ''ab'' @ [LF, LF] @ js ''cd'') 4 = Some [js ''ab'' @ [LF, LF] @ js ''cd''] \<and>
   length (js ''ab'' @ [LF, LF] @ js ''cd'') = 6"
  by (simp add: chunk_eval)

section \<open>Rate limiting: the fixed window\<close>

lemma map_of_cleanup_live:
  "map_of store ip = Some e \<Longrightarrow> \<not> resetTime e < now \<Longrightarrow> map_of (cleanup now store) ip = Some e"
  by (simp add: cleanup_def map_of_filter_in)

lemma map_of_cleanup_None:
  "map_of store ip = None \<Longrightarrow> map_of (cleanup now store) ip = None"
  by (auto simp: cleanup_def map_of_eq_None_iff)


lemma checkRateLimit_fst:
  "fst (checkRateLimit now ip config store) = fst (entry_step now config (map_of store ip))"
  by (simp add: checkRateLimit_def entry_step_def Let_def split: option.splits)

lemma checkRateLimit_entry:
  "map_of (snd (checkRateLimit now ip config store)) ip = Some (snd (entry_step now config (map_of store ip)))"
  by (auto simp add: checkRateLimit_def entry_step_def Let_def update_conv' map_of_map_entry map_of_cleanup_live split: option.splits)

lemma admits_Cons:
  "admits ip ((now, config) # calls) store =
     (fst (checkRateLimit now ip config store) # fst (admits ip calls (snd (checkRateLimit now ip config store))),
      snd (admits ip calls (snd (checkRateLimit now ip config store))))"
  by (simp split: prod.splits)

declare admits.simps(2) [simp del]

lemma admits_length: "length (fst (admits ip calls store)) = length calls"
  by (induction calls arbitrary: store) (auto simp add: admits_Cons)

lemma admits_live:
  assumes "map_of store ip = Some \<lparr>count = c, resetTime = R\<rparr>"
    and "\<forall>t\<in>set ts. t \<le> R"
  shows "(\<forall>i<length ts. fst (admits ip (map (\<lambda>t. (t, config)) ts) store) ! i =
            (if c + int i < maxRequests config
             then \<lparr>allowed = True, remaining = maxRequests config - (c + int i + 1), resetIn = R - ts ! i\<rparr>
             else \<lparr>allowed = False, remaining = 0, resetIn = R - ts ! i\<rparr>)) \<and>
         map_of (snd (admits ip (map (\<lambda>t. (t, config)) ts) store)) ip =
           Some \<lparr>count = (if maxRequests config \<le> c then c else min (c + int (length ts)) (maxRequests config)),
                 resetTime = R\<rparr>"
  using assms
proof (induction ts arbitrary: store c)
  case Nil
  then show ?case by simp
next
  case (Cons t ts)
  let ?N = "maxRequests config"
  let ?s1 = "snd (checkRateLimit t ip config store)"
  let ?c1 = "if ?N \<le> c then c else c + 1"
  have live: "\<not> R < t" using Cons.prems(2) by simp
  have r0: "fst (checkRateLimit t ip config store) =
      (if c < ?N then \<lparr>allowed = True, remaining = ?N - (c + 1), resetIn = R - t\<rparr>
       else \<lparr>allowed = False, remaining = 0, resetIn = R - t\<rparr>)"
    using Cons.prems(1) live by (simp add: checkRateLimit_fst entry_step_def)
  have e1: "map_of ?s1 ip = Some \<lparr>count = ?c1, resetTime = R\<rparr>"
    using Cons.prems(1) live by (simp add: checkRateLimit_entry entry_step_def)
  have rest: "\<forall>t\<in>set ts. t \<le> R" using Cons.prems(2) by simp
  note IH = Cons.IH [OF e1 rest]
  show ?case
  proof (intro conjI allI impI)
    fix i assume i: "i < length (t # ts)"
    show "fst (admits ip (map (\<lambda>t. (t, config)) (t # ts)) store) ! i =
            (if c + int i < ?N
             then \<lparr>allowed = True, remaining = ?N - (c + int i + 1), resetIn = R - (t # ts) ! i\<rparr>
             else \<lparr>allowed = False, remaining = 0, resetIn = R - (t # ts) ! i\<rparr>)"
    proof (cases i)
      case 0
      then show ?thesis by (simp add: admits_Cons r0)
    next
      case (Suc j)
      with i have j: "j < length ts" by simp
      from IH j have "fst (admits ip (map (\<lambda>t. (t, config)) ts) ?s1) ! j =
            (if ?c1 + int j < ?N
             then \<lparr>allowed = True, remaining = ?N - (?c1 + int j + 1), resetIn = R - ts ! j\<rparr>
             else \<lparr>allowed = False, remaining = 0, resetIn = R - ts ! j\<rparr>)"
        by blast
      then show ?thesis using Suc by (auto simp add: admits_Cons)
    qed
  next
    show "map_of (snd (admits ip (map (\<lambda>t. (t, config)) (t # ts)) store)) ip =
           Some \<lparr>count = (if ?N \<le> c then c else min (c + int (length (t # ts))) ?N), resetTime = R\<rparr>"
    proof -
      have cnt: "(if ?N \<le> ?c1 then ?c1 else min (?c1 + int (length ts)) ?N) =
                 (if ?N \<le> c then c else min (c + int (length (t # ts))) ?N)"
        by (cases ts) (auto simp add: min_def)
      from IH have "map_of (snd (admits ip (map (\<lambda>t. (t, config)) ts) ?s1)) ip =
           Some \<lparr>count = (if ?N \<le> ?c1 then ?c1 else min (?c1 + int (length ts)) ?N), resetTime = R\<rparr>"
        by blast
      then show ?thesis unfolding cnt by (simp add: admits_Cons)
    qed
  qed
qed

lemma admits_fresh_window:
  assumes "map_of store ip = None" and "\<forall>t\<in>set ts. t \<le> t0 + windowMs config"
  shows "fst (admits ip (map (\<lambda>t. (t, config)) (t0 # ts)) store) ! 0 =
           \<lparr>allowed = True, remaining = maxRequests config - 1, resetIn = windowMs config\<rparr>"
    and "\<forall>i<length ts. fst (admits ip (map (\<lambda>t. (t, config)) (t0 # ts)) store) ! Suc i =
            (if 1 + int i < maxRequests config
             then \<lparr>allowed = True, remaining = maxRequests config - (1 + int i + 1),
                    resetIn = t0 + windowMs config - ts ! i\<rparr>
             else \<lparr>allowed = False, remaining = 0, resetIn = t0 + windowMs config - ts ! i\<rparr>)"
    and "map_of (snd (admits ip (map (\<lambda>t. (t, config)) (t0 # ts)) store)) ip =
           Some \<lparr>count = (if maxRequests config \<le> 1 then 1
                           else min (1 + int (length ts)) (maxRequests config)),
                 resetTime = t0 + windowMs config\<rparr>"
proof -
  let ?s1 = "snd (checkRateLimit t0 ip config store)"
  have e1: "map_of ?s1 ip = Some \<lparr>count = 1, resetTime = t0 + windowMs config\<rparr>"
    using assms(1) by (simp add: checkRateLimit_entry entry_step_def)
  note live = admits_live [OF e1 assms(2), of config]
  show "fst (admits ip (map (\<lambda>t. (t, config)) (t0 # ts)) store) ! 0 =
           \<lparr>allowed = True, remaining = maxRequests config - 1, resetIn = windowMs config\<rparr>"
    using assms(1) by (simp add: admits_Cons checkRateLimit_fst entry_step_def)
  show "\<forall>i<length ts. fst (admits ip (map (\<lambda>t. (t, config)) (t0 # ts)) store) ! Suc i =
            (if 1 + int i < maxRequests config
             then \<lparr>allowed = True, remaining = maxRequests config - (1 + int i + 1),
                    resetIn = t0 + windowMs config - ts ! i\<rparr>
             else \<lparr>allowed = False, remaining = 0, resetIn = t0 + windowMs config - ts ! i\<rparr>)"
    using live by (simp add: admits_Cons)
  show "map_of (snd (admits ip (map (\<lambda>t. (t, config)) (t0 # ts)) store)) ip =
           Some \<lparr>count = (if maxRequests config \<le> 1 then 1
                           else min (1 + int (length ts)) (maxRequests config)),
                 resetTime = t0 + windowMs config\<rparr>"
    using live by (simp add: admits_Cons)
qed

text \<open>
  Claim C5, as the code has it. A fresh key is admitted under a policy with
  \<open>maxRequests = N \<ge> 1\<close> at time \<open>t0\<close> and then again at the times \<open>ts\<close>, none of them
  after the window's end \<open>t0 + windowMs\<close>. Then exactly the first \<open>N\<close> calls are allowed;
  every denied call reports \<open>resetIn = windowEnd - now\<close>, which is never negative and is
  positive strictly before the window's end; the stored window end never moves and the
  count stops at \<open>N\<close>; and the first call after the window's end is allowed and starts a
  window with count 1.
\<close>

theorem fixed_window_admits_first_N:
  assumes fresh: "map_of store ip = None"
    and N: "1 \<le> maxRequests config"
    and win: "\<forall>t\<in>set ts. t \<le> t0 + windowMs config"
  shows "let rs = fst (admits ip (map (\<lambda>t. (t, config)) (t0 # ts)) store);
             store' = snd (admits ip (map (\<lambda>t. (t, config)) (t0 # ts)) store);
             windowEnd = t0 + windowMs config
         in length rs = Suc (length ts) \<and>
            (\<forall>i<length rs. allowed (rs ! i) = (int i < maxRequests config)) \<and>
            (\<forall>i<length rs. \<not> allowed (rs ! i) \<longrightarrow>
               resetIn (rs ! i) = windowEnd - (t0 # ts) ! i \<and> 0 \<le> resetIn (rs ! i) \<and>
               ((t0 # ts) ! i < windowEnd \<longrightarrow> 0 < resetIn (rs ! i))) \<and>
            map_of store' ip =
              Some \<lparr>count = min (1 + int (length ts)) (maxRequests config), resetTime = windowEnd\<rparr> \<and>
            (\<forall>t'. windowEnd < t' \<longrightarrow>
               fst (checkRateLimit t' ip config store') =
                 \<lparr>allowed = True, remaining = maxRequests config - 1, resetIn = windowMs config\<rparr> \<and>
               map_of (snd (checkRateLimit t' ip config store')) ip =
                 Some \<lparr>count = 1, resetTime = t' + windowMs config\<rparr>)"
proof -
  let ?rs = "fst (admits ip (map (\<lambda>t. (t, config)) (t0 # ts)) store)"
  let ?s = "snd (admits ip (map (\<lambda>t. (t, config)) (t0 # ts)) store)"
  let ?E = "t0 + windowMs config"
  note fw = admits_fresh_window [OF fresh win]
  have len: "length ?rs = Suc (length ts)" by (simp add: admits_length)
  have each: "?rs ! i =
      (if int i < maxRequests config
       then \<lparr>allowed = True, remaining = maxRequests config - (int i + 1), resetIn = ?E - (t0 # ts) ! i\<rparr>
       else \<lparr>allowed = False, remaining = 0, resetIn = ?E - (t0 # ts) ! i\<rparr>)"
    if "i < length ?rs" for i
  proof (cases i)
    case 0
    then show ?thesis using fw(1) N by simp
  next
    case (Suc j)
    with that len have "j < length ts" by simp
    with fw(2) Suc show ?thesis by (simp add: add.commute)
  qed
  have a: "\<forall>i<length ?rs. allowed (?rs ! i) = (int i < maxRequests config)"
    using each by simp
  have b: "\<forall>i<length ?rs. \<not> allowed (?rs ! i) \<longrightarrow>
               resetIn (?rs ! i) = ?E - (t0 # ts) ! i \<and> 0 \<le> resetIn (?rs ! i) \<and>
               ((t0 # ts) ! i < ?E \<longrightarrow> 0 < resetIn (?rs ! i))"
  proof (intro allI impI)
    fix i assume i: "i < length ?rs" and d: "\<not> allowed (?rs ! i)"
    from each [OF i] d have r: "resetIn (?rs ! i) = ?E - (t0 # ts) ! i" and "\<not> int i < maxRequests config"
      by (auto split: if_splits)
    with N have "i \<noteq> 0" by auto
    then obtain j where j: "i = Suc j" by (cases i) auto
    with i len have "ts ! j \<in> set ts" by simp
    with win have "ts ! j \<le> ?E" by blast
    with r j show "resetIn (?rs ! i) = ?E - (t0 # ts) ! i \<and> 0 \<le> resetIn (?rs ! i) \<and>
               ((t0 # ts) ! i < ?E \<longrightarrow> 0 < resetIn (?rs ! i))" by simp
  qed
  have c: "map_of ?s ip = Some \<lparr>count = min (1 + int (length ts)) (maxRequests config), resetTime = ?E\<rparr>"
    using fw(3) N by (auto simp: min_def)
  have d: "\<forall>t'. ?E < t' \<longrightarrow>
               fst (checkRateLimit t' ip config ?s) =
                 \<lparr>allowed = True, remaining = maxRequests config - 1, resetIn = windowMs config\<rparr> \<and>
               map_of (snd (checkRateLimit t' ip config ?s)) ip =
                 Some \<lparr>count = 1, resetTime = t' + windowMs config\<rparr>"
    using c by (simp add: checkRateLimit_fst checkRateLimit_entry entry_step_def)
  show ?thesis unfolding Let_def by (intro conjI len a b c d)
qed

theorem fixed_window_admits_first_N_witness:
  "let ip = js ''10.0.0.1''; config = \<lparr>windowMs = 1000, maxRequests = 2\<rparr>;
       run = admits ip [(0, config), (10, config), (1000, config)] []
   in map allowed (fst run) = [True, True, False] \<and>
      resetIn (fst run ! 2) = 0 \<and>
      map_of (snd run) ip = Some \<lparr>count = 2, resetTime = 1000\<rparr> \<and>
      fst (checkRateLimit 1001 ip config (snd run)) = \<lparr>allowed = True, remaining = 1, resetIn = 1000\<rparr>"
proof -
  let ?ip = "js ''10.0.0.1''"
  let ?config = "\<lparr>windowMs = 1000, maxRequests = 2\<rparr>"
  let ?run = "admits ?ip (map (\<lambda>t. (t, ?config)) (0 # [10, 1000])) []"
  have h1: "map_of [] ?ip = None" by simp
  have h2: "1 \<le> maxRequests ?config" by simp
  have h3: "\<forall>t\<in>set [10, 1000]. t \<le> 0 + windowMs ?config" by simp
  note th = fixed_window_admits_first_N [OF h1 h2 h3, unfolded Let_def]
  from th have len: "length (fst ?run) = 3" by simp
  from th have al: "\<forall>i<length (fst ?run). allowed (fst ?run ! i) = (int i < maxRequests ?config)"
    by blast
  have a0: "allowed (fst ?run ! 0)" and a1: "allowed (fst ?run ! 1)" and a2: "\<not> allowed (fst ?run ! 2)"
    using al len by simp_all
  from th have "\<forall>i<length (fst ?run). \<not> allowed (fst ?run ! i) \<longrightarrow>
      resetIn (fst ?run ! i) = 0 + windowMs ?config - (0 # [10, 1000]) ! i" by blast
  with a2 len have r2: "resetIn (fst ?run ! 2) = 0" by simp
  from th have st: "map_of (snd ?run) ?ip = Some \<lparr>count = 2, resetTime = 1000\<rparr>" by simp
  from th have "\<forall>t'. 0 + windowMs ?config < t' \<longrightarrow>
      fst (checkRateLimit t' ?ip ?config (snd ?run)) =
        \<lparr>allowed = True, remaining = maxRequests ?config - 1, resetIn = windowMs ?config\<rparr>" by blast
  then have nx: "fst (checkRateLimit 1001 ?ip ?config (snd ?run)) = \<lparr>allowed = True, remaining = 1, resetIn = 1000\<rparr>"
    by simp
  have m: "map allowed (fst ?run) = [True, True, False]"
    using len a0 a1 a2 by (auto simp: list_eq_iff_nth_eq less_Suc_eq numeral_3_eq_3 numeral_2_eq_2)
  show ?thesis unfolding Let_def using m r2 st nx by simp
qed

text \<open>
  The claim as written fails in two places. A policy with \<open>maxRequests = 0\<close> still admits
  the first call of a fresh key; and a call made exactly at the window's end is still
  inside the window (the test is \<^verbatim>\<open>entry.resetTime < now\<close>), so it is denied with
  \<open>resetIn = 0\<close>.
\<close>

theorem fixed_window_counterexample:
  "allowed (fst (checkRateLimit 0 (js ''10.0.0.1'') \<lparr>windowMs = 1000, maxRequests = 0\<rparr> [])) \<and>
   fst (checkRateLimit 1000 (js ''10.0.0.1'') \<lparr>windowMs = 1000, maxRequests = 1\<rparr>
          (snd (checkRateLimit 0 (js ''10.0.0.1'') \<lparr>windowMs = 1000, maxRequests = 1\<rparr> []))) =
     \<lparr>allowed = False, remaining = 0, resetIn = 0\<rparr>"
  by (simp add: checkRateLimit_def cleanup_def)

text \<open>
  Claim C1 asks that the windows of distinct policies of one address do not interfere.
  The store is keyed by the address alone, so they do: on an empty store the first upload
  at time 5 is admitted with 9 left, but after ten admitted questions of the same address
  (ask policy, limit 20) the first upload is denied, because the shared count has reached
  the upload limit 10.
\<close>

theorem policies_share_one_window:
  "fst (checkRateLimit 5 (js ''203.0.113.7'') uploadRateLimit []) =
     \<lparr>allowed = True, remaining = 9, resetIn = 60000\<rparr> \<and>
   fst (checkRateLimit 5 (js ''203.0.113.7'') uploadRateLimit
          (snd (admits (js ''203.0.113.7'') (map (\<lambda>t. (t, askRateLimit)) (0 # replicate 9 0)) []))) =
     \<lparr>allowed = False, remaining = 0, resetIn = 59995\<rparr>"
proof -
  let ?ip = "js ''203.0.113.7''"
  have "map_of (snd (admits ?ip (map (\<lambda>t. (t, askRateLimit)) (0 # replicate 9 0)) [])) ?ip =
          Some \<lparr>count = 10, resetTime = 60000\<rparr>"
    using admits_fresh_window(3) [of "[]" ?ip "replicate 9 0" 0 askRateLimit]
    by (simp add: askRateLimit_def)
  then show ?thesis
    by (simp add: checkRateLimit_fst entry_step_def uploadRateLimit_def)
qed

section \<open>getEmbedding: retries and backoff\<close>

lemma retry_events_0: "retry_events a 0 = []"
  by (simp add: retry_events_def)

lemma retry_events_Suc:
  "retry_events a (Suc k) = [Fetch a, Sleep (INITIAL_BACKOFF_MS * 2 ^ a)] @ retry_events (Suc a) k"
  by (simp add: retry_events_def upt_conv_Cons)

lemma loop_transient_step:
  assumes "transient (fetch a)" and "a < MAX_RETRIES"
  shows "getEmbedding_loop fetch a le tr =
           getEmbedding_loop fetch (Suc a) (Some (ApiError (failure_text (fetch a))))
             (tr @ [Fetch a, Sleep (INITIAL_BACKOFF_MS * 2 ^ a)])"
proof (cases "fetch a")
  case (Rejected msg)
  with assms show ?thesis by simp
next
  case (Resolved r)
  with assms show ?thesis by (subst getEmbedding_loop.simps) auto
qed

lemma loop_transient:
  assumes "a + k \<le> MAX_RETRIES" and "\<forall>i. a \<le> i \<and> i < a + k \<longrightarrow> transient (fetch i)"
  shows "getEmbedding_loop fetch a le tr =
           getEmbedding_loop fetch (a + k)
             (if k = 0 then le else Some (ApiError (failure_text (fetch (a + k - 1)))))
             (tr @ retry_events a k)"
  using assms
proof (induction k arbitrary: a le tr)
  case 0
  then show ?case by (simp add: retry_events_0)
next
  case (Suc k)
  have a: "transient (fetch a)" "a < MAX_RETRIES" using Suc.prems by auto
  have "getEmbedding_loop fetch (Suc a) (Some (ApiError (failure_text (fetch a))))
          (tr @ [Fetch a, Sleep (INITIAL_BACKOFF_MS * 2 ^ a)]) =
        getEmbedding_loop fetch (Suc a + k)
          (if k = 0 then Some (ApiError (failure_text (fetch a)))
           else Some (ApiError (failure_text (fetch (Suc a + k - 1)))))
          ((tr @ [Fetch a, Sleep (INITIAL_BACKOFF_MS * 2 ^ a)]) @ retry_events (Suc a) k)"
    by (rule Suc.IH) (use Suc.prems in auto)
  then show ?case
    by (simp add: loop_transient_step [of fetch a, OF a] retry_events_Suc)
qed

lemma loop_success:
  assumes "a < MAX_RETRIES" and "fetch a = Resolved r" and "ok r" and "embedding r = Some v"
  shows "getEmbedding_loop fetch a le tr = (tr @ [Fetch a], Inr v)"
  using assms by (subst getEmbedding_loop.simps) simp

lemma loop_permanent:
  assumes "a < MAX_RETRIES" and "permanent (fetch a)"
  shows "getEmbedding_loop fetch a le tr = (tr @ [Fetch a], Inl (ApiError (failure_text (fetch a))))"
proof (cases "fetch a")
  case (Rejected msg)
  with assms show ?thesis by simp
next
  case (Resolved r)
  with assms show ?thesis by (subst getEmbedding_loop.simps) auto
qed

lemma loop_rejected:
  assumes "a < MAX_RETRIES" and "fetch a = Rejected msg"
  shows "getEmbedding_loop fetch a le tr = (tr @ [Fetch a], Inl (FetchFailed msg))"
  using assms by (subst getEmbedding_loop.simps) simp

lemma loop_exhausted:
  "getEmbedding_loop fetch MAX_RETRIES (Some e) tr = (tr, Inl e)"
  by (subst getEmbedding_loop.simps) simp

lemma retry_events_sleeps:
  "[ms. Sleep ms \<leftarrow> retry_events a n] = map (\<lambda>i. 1000 * 2 ^ i) [a..<a + n]"
  by (induction n arbitrary: a)
     (simp_all add: retry_events_0 retry_events_Suc INITIAL_BACKOFF_MS_def upt_conv_Cons)

lemma retry_events_5:
  "retry_events 0 5 = [Fetch 0, Sleep 1000, Fetch 1, Sleep 2000, Fetch 2, Sleep 4000,
                       Fetch 3, Sleep 8000, Fetch 4, Sleep 16000]"
  by (simp add: retry_events_def INITIAL_BACKOFF_MS_def upt_rec)

text \<open>
  Claim C4, as the code has it, for a call that has its API key. Every transiently failed
  round \<open>i\<close> (counted from 0) is followed by a delay of \<open>1000 * 2 ^ i\<close> milliseconds. If
  the provider fails transiently \<open>n < 5\<close> times and then succeeds, the call makes \<open>n + 1\<close>
  fetches with exactly the \<open>n\<close> delays 1 s, 2 s, ... between them and returns the vector. If
  all five rounds fail transiently, exactly five fetches are made, each followed by its
  delay (the 16 s delay follows the fifth and last fetch), and the error of the fifth
  response is thrown. A permanent error status, or a fetch that rejects, ends the call
  at once: no delay and no further fetch.
\<close>

theorem getEmbedding_retry_schedule:
  assumes key: "apiKey = Some k" "k \<noteq> []"
  shows "(\<forall>n r v. n < 5 \<and> (\<forall>i<n. transient (provider text inputType i)) \<and>
            provider text inputType n = Resolved r \<and> ok r \<and> embedding r = Some v \<longrightarrow>
            getEmbedding_trace apiKey provider text inputType =
              (retry_events 0 n @ [Fetch n], Inr v) \<and>
            [ms. Sleep ms \<leftarrow> retry_events 0 n] = map (\<lambda>i. 1000 * 2 ^ i) [0..<n]) \<and>
         ((\<forall>i<5. transient (provider text inputType i)) \<longrightarrow>
            getEmbedding_trace apiKey provider text inputType =
              ([Fetch 0, Sleep 1000, Fetch 1, Sleep 2000, Fetch 2, Sleep 4000,
                Fetch 3, Sleep 8000, Fetch 4, Sleep 16000],
               Inl (ApiError (failure_text (provider text inputType 4))))) \<and>
         (\<forall>n. n < 5 \<and> (\<forall>i<n. transient (provider text inputType i)) \<and>
            permanent (provider text inputType n) \<longrightarrow>
            getEmbedding_trace apiKey provider text inputType =
              (retry_events 0 n @ [Fetch n], Inl (ApiError (failure_text (provider text inputType n))))) \<and>
         (\<forall>n msg. n < 5 \<and> (\<forall>i<n. transient (provider text inputType i)) \<and>
            provider text inputType n = Rejected msg \<longrightarrow>
            getEmbedding_trace apiKey provider text inputType =
              (retry_events 0 n @ [Fetch n], Inl (FetchFailed msg)))"
proof -
  let ?f = "provider text inputType"
  have g: "getEmbedding_trace apiKey provider text inputType = getEmbedding_loop ?f 0 None []"
    using key by (simp add: getEmbedding_trace_def)
  have pre: "getEmbedding_loop ?f 0 None [] =
      getEmbedding_loop ?f n (if n = 0 then None else Some (ApiError (failure_text (?f (n - 1)))))
        (retry_events 0 n)"
    if "n \<le> 5" "\<forall>i<n. transient (?f i)" for n
    using loop_transient [of 0 n ?f None "[]"] that by (simp add: MAX_RETRIES_def)
  have A: "getEmbedding_trace apiKey provider text inputType = (retry_events 0 n @ [Fetch n], Inr v) \<and>
           [ms. Sleep ms \<leftarrow> retry_events 0 n] = map (\<lambda>i. 1000 * 2 ^ i) [0..<n]"
    if "n < 5" "\<forall>i<n. transient (?f i)" "?f n = Resolved r" "ok r" "embedding r = Some v" for n r v
    using that pre [of n] retry_events_sleeps [of 0 n] by (simp add: g loop_success MAX_RETRIES_def)
  have B: "getEmbedding_trace apiKey provider text inputType =
              ([Fetch 0, Sleep 1000, Fetch 1, Sleep 2000, Fetch 2, Sleep 4000,
                Fetch 3, Sleep 8000, Fetch 4, Sleep 16000],
               Inl (ApiError (failure_text (?f 4))))"
    if "\<forall>i<5. transient (?f i)"
    using that pre [of 5] loop_exhausted [of ?f] by (simp add: g MAX_RETRIES_def retry_events_5)
  have C: "getEmbedding_trace apiKey provider text inputType =
              (retry_events 0 n @ [Fetch n], Inl (ApiError (failure_text (?f n))))"
    if "n < 5" "\<forall>i<n. transient (?f i)" "permanent (?f n)" for n
    using that pre [of n] by (simp add: g loop_permanent MAX_RETRIES_def)
  have D: "getEmbedding_trace apiKey provider text inputType =
              (retry_events 0 n @ [Fetch n], Inl (FetchFailed msg))"
    if "n < 5" "\<forall>i<n. transient (?f i)" "?f n = Rejected msg" for n msg
    using that pre [of n] by (simp add: g loop_rejected MAX_RETRIES_def)
  show ?thesis using A B C D by blast
qed

theorem getEmbedding_retry_schedule_witness:
  "getEmbedding_trace (Some (js ''key'')) (flaky 2) (js ''test'') Passage =
     ([Fetch 0, Sleep 1000, Fetch 1, Sleep 2000, Fetch 2], Inr [1, 2, 3]) \<and>
   getEmbedding_trace (Some (js ''key'')) (flaky 5) (js ''test'') Passage =
     ([Fetch 0, Sleep 1000, Fetch 1, Sleep 2000, Fetch 2, Sleep 4000,
       Fetch 3, Sleep 8000, Fetch 4, Sleep 16000], Inl (ApiError (js ''busy''))) \<and>
   getEmbedding_trace (Some (js ''key'')) denying (js ''test'') Passage =
     ([Fetch 0], Inl (ApiError (js ''no'')))"
proof -
  have k: "Some (js ''key'') = Some (js ''key'')" "js ''key'' \<noteq> []" by (simp_all add: js_def)
  note th2 = getEmbedding_retry_schedule [OF k, of "flaky 2" "js ''test''" Passage]
  note th5 = getEmbedding_retry_schedule [OF k, of "flaky 5" "js ''test''" Passage]
  note thd = getEmbedding_retry_schedule [OF k, of denying "js ''test''" Passage]
  have ev: "retry_events 0 2 = [Fetch 0, Sleep 1000, Fetch 1, Sleep 2000]" "retry_events 0 0 = []"
    by (simp_all add: retry_events_def INITIAL_BACKOFF_MS_def upt_rec)
  have a: "getEmbedding_trace (Some (js ''key'')) (flaky 2) (js ''test'') Passage =
     (retry_events 0 2 @ [Fetch 2], Inr [1, 2, 3])"
    by (rule th2 [THEN conjunct1, rule_format, THEN conjunct1,
          of 2 "\<lparr>status = 200, errorText = [], embedding = Some [1, 2, 3]\<rparr>"])
       (simp add: flaky_def ok_def)
  have b: "getEmbedding_trace (Some (js ''key'')) (flaky 5) (js ''test'') Passage =
     ([Fetch 0, Sleep 1000, Fetch 1, Sleep 2000, Fetch 2, Sleep 4000,
       Fetch 3, Sleep 8000, Fetch 4, Sleep 16000], Inl (ApiError (failure_text (flaky 5 (js ''test'') Passage 4))))"
    by (rule th5 [THEN conjunct2, THEN conjunct1, rule_format]) (simp add: flaky_def ok_def)
  have c: "getEmbedding_trace (Some (js ''key'')) denying (js ''test'') Passage =
     (retry_events 0 0 @ [Fetch 0], Inl (ApiError (failure_text (denying (js ''test'') Passage 0))))"
    by (rule thd [THEN conjunct2, THEN conjunct2, THEN conjunct1, rule_format])
       (simp add: denying_def ok_def)
  show ?thesis using a b c by (simp add: ev flaky_def denying_def)
qed

text \<open>
  The claim places all five delays between successive attempts. Five attempts have four
  gaps: against a provider that always answers 503, the 16 s delay is slept after the
  fifth attempt, and the error is thrown only then.
\<close>

theorem getEmbedding_last_delay_counterexample:
  "getEmbedding_trace (Some (js ''key'')) (flaky 5) (js ''test'') Passage =
     ([Fetch 0, Sleep 1000, Fetch 1, Sleep 2000, Fetch 2, Sleep 4000,
       Fetch 3, Sleep 8000, Fetch 4, Sleep 16000], Inl (ApiError (js ''busy''))) \<and>
   last (fst (getEmbedding_trace (Some (js ''key'')) (flaky 5) (js ''test'') Passage)) = Sleep 16000"
proof -
  have "getEmbedding_trace (Some (js ''key'')) (flaky 5) (js ''test'') Passage =
     ([Fetch 0, Sleep 1000, Fetch 1, Sleep 2000, Fetch 2, Sleep 4000,
       Fetch 3, Sleep 8000, Fetch 4, Sleep 16000], Inl (ApiError (js ''busy'')))"
    using loop_transient [of 0 5 "flaky 5 (js ''test'') Passage" None "[]"]
    by (simp add: getEmbedding_trace_def js_def MAX_RETRIES_def flaky_def ok_def
          loop_exhausted [unfolded MAX_RETRIES_def] retry_events_5)
  then show ?thesis by simp
qed

section \<open>The upload: embed, then write\<close>

lemma all_or_first_error_Inl:
  "Inl e \<in> set rs \<Longrightarrow> \<exists>e'. all_or_first_error rs = Inl e'"
  by (induction rs rule: all_or_first_error.induct) (auto split: sum.splits)

lemma getEmbeddingsBatch_fails:
  assumes "c \<in> set texts" and "getEmbedding k p c it = Inl err"
  shows "\<exists>err'. getEmbeddingsBatch k p texts it = Inl err'"
proof -
  from assms have "Inl err \<in> set (map (\<lambda>text. getEmbedding k p text it) texts)"
    by (metis (no_types, lifting) image_eqI list.set_map)
  then show ?thesis unfolding getEmbeddingsBatch_def by (rule all_or_first_error_Inl)
qed

lemma set_drop_split: "set (drop i xs) = set (take n (drop i xs)) \<union> set (drop (i + n) xs)"
proof -
  have "set (take n (drop i xs) @ drop n (drop i xs)) =
        set (take n (drop i xs)) \<union> set (drop n (drop i xs))"
    by (rule set_append)
  then have "set (drop i xs) = set (take n (drop i xs)) \<union> set (drop n (drop i xs))"
    by (simp only: append_take_drop_id)
  then show ?thesis by (simp only: drop_drop add.commute)
qed

lemma embed_batches_fails:
  assumes "c \<in> set (drop i chunks)"
    and "getEmbedding (NVIDIA_API_KEY e) (embeddingProvider e) c Passage = Inl err"
  shows "\<exists>err'. embed_batches e name chunks i vectors = Inl err'"
  using assms
proof (induction e name chunks i vectors rule: embed_batches.induct)
  case (1 e name chunks i vectors)
  note c = \<open>c \<in> set (drop i chunks)\<close>
  note fails = \<open>getEmbedding (NVIDIA_API_KEY e) (embeddingProvider e) c Passage = Inl err\<close>
  from c have i: "i < length chunks" by (cases "i < length chunks") auto
  let ?batch = "take BATCH_SIZE (drop i chunks)"
  show ?case
  proof (cases "getEmbeddingsBatch (NVIDIA_API_KEY e) (embeddingProvider e) ?batch Passage")
    case (Inl err')
    with i show ?thesis by (subst embed_batches.simps) simp
  next
    case (Inr embeddings)
    have "c \<notin> set ?batch"
    proof
      assume "c \<in> set ?batch"
      from getEmbeddingsBatch_fails [OF this fails] show False unfolding Inr by simp
    qed
    with c have "c \<in> set (drop (i + BATCH_SIZE) chunks)"
      using set_drop_split [of i chunks BATCH_SIZE] by blast
    from "1.IH" [OF i refl Inr this fails] i Inr show ?thesis
      by (subst embed_batches.simps) simp
  qed
qed

text \<open>
  Claim C3: the upload is atomic with respect to embedding failure. For an upload whose
  file yields the text \<open>text\<close> and the chunks \<open>chunks\<close>: if \<open>getEmbedding\<close> fails for any one
  chunk (retries exhausted, a permanent error, or any other throw), the index after the
  request is the index before it, and the response is not the success response. The
  one \<^verbatim>\<open>upsert\<close> comes after the loop over all batches.
\<close>

theorem upload_writes_nothing_when_an_embedding_fails:
  assumes "extractTextFromFile e f = Inr text"
    and "chunkText text 2000 = Some chunks"
    and "c \<in> set chunks"
    and "getEmbedding (NVIDIA_API_KEY e) (embeddingProvider e) c Passage = Inl err"
  shows "snd (snd (POST_documents e now ip (Some f) (store, idx))) = idx \<and>
         (\<forall>name n. fst (POST_documents e now ip (Some f) (store, idx)) \<noteq> Uploaded name n)"
proof -
  from assms(3) have "c \<in> set (drop 0 chunks)" by simp
  from embed_batches_fails [OF this assms(4)] obtain err' where
    "embed_batches e (fileName f) chunks 0 [] = Inl err'" by blast
  with assms(1,2) show ?thesis
    by (simp add: POST_documents_def split: prod.splits)
qed

lemmas route_eval =
  extractTextFromFile_def parsed_text_def toLowerCase_def endsWith_def test_env_def js_def
  clean_text_def CR_def

lemma denying_fails:
  "getEmbedding (Some (js ''key'')) denying t it = Inl (ApiError (js ''no''))"
proof -
  have "js ''key'' \<noteq> []" by (simp add: js_def)
  then show ?thesis
    using loop_permanent [of 0 "denying t it" None "[]"]
    by (simp add: getEmbedding_def getEmbedding_trace_def denying_def MAX_RETRIES_def ok_def)
qed

theorem upload_writes_nothing_when_an_embedding_fails_witness:
  "snd (snd (POST_documents (test_env denying) 0 (js ''203.0.113.7'')
               (Some \<lparr>fileName = js ''notes.txt'', content = js ''hello''\<rparr>) ([], \<lambda>ns. []))) =
     (\<lambda>ns. []) \<and>
   fst (POST_documents (test_env denying) 0 (js ''203.0.113.7'')
               (Some \<lparr>fileName = js ''notes.txt'', content = js ''hello''\<rparr>) ([], \<lambda>ns. [])) \<noteq>
     Uploaded (js ''notes.txt'') 1"
proof -
  let ?e = "test_env denying"
  let ?f = "\<lparr>fileName = js ''notes.txt'', content = js ''hello''\<rparr>"
  have h1: "extractTextFromFile ?e ?f = Inr (js ''hello'')" by (simp add: route_eval)
  have h2: "chunkText (js ''hello'') 2000 = Some [js ''hello'']" by (simp add: chunk_eval)
  have h3: "js ''hello'' \<in> set [js ''hello'']" by simp
  have h4: "getEmbedding (NVIDIA_API_KEY ?e) (embeddingProvider ?e) (js ''hello'') Passage =
              Inl (ApiError (js ''no''))"
    by (simp add: test_env_def denying_fails)
  from upload_writes_nothing_when_an_embedding_fails [OF h1 h2 h3 h4, of 0 "js ''203.0.113.7''" "[]" "\<lambda>ns. []"]
  show ?thesis by blast
qed

section \<open>Namespaces\<close>

lemma target_getIndex: "target (getIndex ip) = ip"
  by (simp add: getIndex_def)














section \<open>Delete\<close>

lemma unat_digit: "d < 10 \<Longrightarrow> unat (of_nat (48 + d) :: jschar) = 48 + d"
proof -
  assume d: "d < 10"
  have "unat (of_nat (48 + d) :: jschar) = (48 + d) mod 2 ^ LENGTH(16)"
    by (simp only: unat_of_nat)
  also have "\<dots> = 48 + d" using d by simp
  finally show ?thesis .
qed

lemma unat_digit': "d < 10 \<Longrightarrow> unat (48 + of_nat d :: jschar) = 48 + d"
  using unat_digit [of d] by simp

lemma undecimal_snoc: "undecimal (s @ [d]) = 10 * undecimal s + (unat d - 48)"
  by (simp add: undecimal_def)

lemma undecimal_decimal: "undecimal (decimal n) = n"
proof (induction n rule: decimal.induct)
  case (1 n)
  show ?case
  proof (cases "n < 10")
    case True
    then show ?thesis
      by (subst decimal.simps) (simp add: undecimal_def unat_digit')
  next
    case False
    have "n mod 10 < 10" by simp
    then have "unat (48 + of_nat (n mod 10) :: jschar) = 48 + n mod 10" by (rule unat_digit')
    with False "1.IH" show ?thesis
      by (subst decimal.simps) (simp add: undecimal_snoc)
  qed
qed

lemma decimal_inj: "decimal m = decimal n \<Longrightarrow> m = n"
  by (metis undecimal_decimal)

lemma chunk_record_rid_inj:
  "rid (chunk_record e name k text v) = rid (chunk_record e name k' text' v') \<Longrightarrow> k = k'"
  by (simp add: chunk_record_def decimal_inj)

lemma filter_ge_upt: "m \<le> n \<Longrightarrow> filter (\<lambda>k. \<not> k < m) [0..<n] = [m..<n]"
proof (induction n)
  case 0
  then show ?case by simp
next
  case (Suc n)
  show ?case
  proof (cases "m = Suc n")
    case True
    then show ?thesis by (simp add: filter_empty_conv)
  next
    case False
    with Suc.prems have "m \<le> n" by simp
    with Suc.IH show ?thesis by simp
  qed
qed

lemma big_document_rest:
  assumes "m \<le> n"
  shows "filter (\<lambda>r. rid r \<notin> set (map rid (big_document m))) (big_document n) =
           map (\<lambda>k. chunk_record (test_env denying) (js ''big.txt'') k (js ''x'') []) [m..<n]"
proof -
  let ?f = "\<lambda>k. chunk_record (test_env denying) (js ''big.txt'') k (js ''x'') ([]::int list)"
  have "rid (?f k) \<in> set (map rid (big_document m)) \<longleftrightarrow> k < m" for k
  proof
    assume "rid (?f k) \<in> set (map rid (big_document m))"
    then obtain j where j: "j < m" and eq: "rid (?f k) = rid (?f j)" by (auto simp: big_document_def)
    from chunk_record_rid_inj [OF eq] j show "k < m" by simp
  next
    assume "k < m"
    then show "rid (?f k) \<in> set (map rid (big_document m))" by (auto simp: big_document_def)
  qed
  then have "filter (\<lambda>r. rid r \<notin> set (map rid (big_document m))) (big_document n) =
             map ?f (filter (\<lambda>k. \<not> k < m) [0..<n])"
    by (simp add: big_document_def filter_map comp_def)
  with assms show ?thesis by (simp add: filter_ge_upt)
qed

lemma big_document_all_match:
  "filter (\<lambda>r. documentName r = js ''big.txt'') (big_document n) = big_document n"
  by (simp add: big_document_def chunk_record_def)

lemma big_document_take: "m \<le> n \<Longrightarrow> take m (big_document n) = big_document m"
  by (simp add: big_document_def take_map)

text \<open>
  Claim C6 says that a delete removes all \<open>N\<close> records of the document and reports \<open>N\<close>.
  The query that collects the ids asks for \<^verbatim>\<open>topK: 1000\<close>. In a namespace that holds one
  document of 1001 chunks, the delete reports 1000 deleted chunks and the record of chunk
  1000 stays in the index.
\<close>

theorem delete_leaves_records_beyond_the_first_thousand:
  "fst (DELETE_documents (test_env denying) 0 (js ''203.0.113.7'') (Some (js ''big.txt''))
          ([], (\<lambda>ns. [])(js ''203.0.113.7'' := big_document 1001))) = Deleted 1000 \<and>
   snd (snd (DELETE_documents (test_env denying) 0 (js ''203.0.113.7'') (Some (js ''big.txt''))
          ([], (\<lambda>ns. [])(js ''203.0.113.7'' := big_document 1001)))) (js ''203.0.113.7'') =
     [chunk_record (test_env denying) (js ''big.txt'') 1000 (js ''x'') []] \<and>
   length (filter (\<lambda>r. documentName r = js ''big.txt'') (big_document 1001)) = 1001"
proof -
  let ?ip = "js ''203.0.113.7''"
  let ?idx = "(\<lambda>ns. [])(?ip := big_document 1001)"
  have adm: "checkRateLimit 0 ?ip defaultConfig [] =
      (\<lparr>allowed = True, remaining = 29, resetIn = 60000\<rparr>, [(?ip, \<lparr>count = 1, resetTime = 60000\<rparr>)])"
    by (simp add: checkRateLimit_def cleanup_def defaultConfig_def)
  have q: "query (indexRanking (test_env denying)) (getIndex ?ip) (zeroVector (test_env denying)) 1000
             (\<lambda>r. documentName r = js ''big.txt'') ?idx = big_document 1000"
    by (simp add: query_def test_env_def target_getIndex big_document_all_match big_document_take)
  have ne: "big_document 1000 \<noteq> []" by (simp add: big_document_def)
  have len: "length (big_document 1000) = 1000" by (simp add: big_document_def)
  have rest: "deleteMany (getIndex ?ip) (map rid (big_document 1000)) ?idx ?ip =
      [chunk_record (test_env denying) (js ''big.txt'') 1000 (js ''x'') []]"
    using big_document_rest [of 1000 1001]
    by (simp add: deleteMany_def target_getIndex)
  have all: "length (filter (\<lambda>r. documentName r = js ''big.txt'') (big_document 1001)) = 1001"
    using big_document_all_match [of 1001] by (simp add: big_document_def)
  have nm: "js ''big.txt'' \<noteq> []" by (simp add: js_def)
  show ?thesis
    by (simp add: DELETE_documents_def Let_def adm q ne len rest all nm)
qed

text \<open>
  Up to the cap the route does delete whole documents. For an admitted request, a
  ranking that permutes its input and a namespace with distinct ids: when no record
  matches, the answer is not-found and the index is unchanged; when \<open>N\<close> records match,
  \<open>1 \<le> N \<le> 1000\<close>, the answer reports \<open>N\<close> and exactly the records of other documents
  remain.
\<close>

lemma delete_up_to_thousand:
  assumes adm: "allowed (fst (checkRateLimit now ip defaultConfig store))"
    and name: "name \<noteq> []"
    and perm: "\<And>v rs. set (indexRanking e v rs) = set rs \<and> length (indexRanking e v rs) = length rs"
    and ids: "distinct (map rid (idx ip))"
    and N: "length (filter (\<lambda>r. documentName r = name) (idx ip)) \<le> 1000"
  shows "(filter (\<lambda>r. documentName r = name) (idx ip) = [] \<longrightarrow>
           fst (DELETE_documents e now ip (Some name) (store, idx)) = NotFound (js ''Document not found'') \<and>
           snd (snd (DELETE_documents e now ip (Some name) (store, idx))) = idx) \<and>
         (filter (\<lambda>r. documentName r = name) (idx ip) \<noteq> [] \<longrightarrow>
           fst (DELETE_documents e now ip (Some name) (store, idx)) =
             Deleted (length (filter (\<lambda>r. documentName r = name) (idx ip))) \<and>
           snd (snd (DELETE_documents e now ip (Some name) (store, idx))) =
             idx(ip := filter (\<lambda>r. documentName r \<noteq> name) (idx ip)))"
proof -
  let ?M = "filter (\<lambda>r. documentName r = name) (idx ip)"
  let ?matches = "query (indexRanking e) (getIndex ip) (zeroVector e) 1000
                    (\<lambda>r. documentName r = name) idx"
  have m: "?matches = indexRanking e (zeroVector e) ?M"
    using N perm [of "zeroVector e" ?M] by (simp add: query_def target_getIndex)
  have sm: "set ?matches = set ?M" and lm: "length ?matches = length ?M"
    unfolding m using perm [of "zeroVector e" ?M] by blast+
  have e: "?matches = [] \<longleftrightarrow> ?M = []" using lm by (metis length_0_conv)
  have inj: "inj_on rid (set (idx ip))" using ids by (simp add: distinct_map)
  have keep: "rid r \<notin> set (map rid ?matches) \<longleftrightarrow> documentName r \<noteq> name" if "r \<in> set (idx ip)" for r
  proof
    assume a: "rid r \<notin> set (map rid ?matches)"
    show "documentName r \<noteq> name"
    proof
      assume "documentName r = name"
      with that have "r \<in> set ?M" by simp
      with sm have "rid r \<in> set (map rid ?matches)" by auto
      with a show False by contradiction
    qed
  next
    assume b: "documentName r \<noteq> name"
    show "rid r \<notin> set (map rid ?matches)"
    proof
      assume "rid r \<in> set (map rid ?matches)"
      then obtain r' where r': "r' \<in> set ?M" "rid r = rid r'" using sm by auto
      then have "r' \<in> set (idx ip)" by simp
      with inj that r'(2) have "r = r'" by (meson inj_onD)
      with r'(1) b show False by simp
    qed
  qed
  have del: "deleteMany (getIndex ip) (map rid ?matches) idx =
             idx(ip := filter (\<lambda>r. documentName r \<noteq> name) (idx ip))"
    unfolding deleteMany_def target_getIndex
    by (rule arg_cong [where f = "\<lambda>x. idx(ip := x)"], rule filter_cong [OF refl], rule keep)
  obtain r store1 where c: "checkRateLimit now ip defaultConfig store = (r, store1)"
    by (cases "checkRateLimit now ip defaultConfig store")
  with adm have al: "allowed r" by simp
  have nf: "?M = [] \<Longrightarrow> DELETE_documents e now ip (Some name) (store, idx) =
              (NotFound (js ''Document not found''), store1, idx)"
    using e c al name by (simp add: DELETE_documents_def Let_def)
  have ok: "?M \<noteq> [] \<Longrightarrow> DELETE_documents e now ip (Some name) (store, idx) =
              (Deleted (length ?M), store1, idx(ip := filter (\<lambda>r. documentName r \<noteq> name) (idx ip)))"
    using e c al name lm del by (simp add: DELETE_documents_def Let_def)
  show ?thesis using nf ok by simp
qed

section \<open>Text extraction\<close>

lemma flaky0_succeeds:
  "getEmbedding (Some (js ''key'')) (flaky 0) t it = Inr [1, 2, 3]"
proof -
  have "js ''key'' \<noteq> []" by (simp add: js_def)
  then show ?thesis
    using loop_success [of 0 "flaky 0 t it" "\<lparr>status = 200, errorText = [], embedding = Some [1, 2, 3]\<rparr>"
        "[1, 2, 3]" None "[]"]
    by (simp add: getEmbedding_def getEmbedding_trace_def flaky_def MAX_RETRIES_def ok_def)
qed

lemma embed_batches_done:
  "\<not> i < length chunks \<Longrightarrow> embed_batches e name chunks i vectors = Inr vectors"
  by (subst embed_batches.simps) simp

lemma embed_batches_step:
  assumes "i < length chunks"
    and "getEmbeddingsBatch (NVIDIA_API_KEY e) (embeddingProvider e)
           (take BATCH_SIZE (drop i chunks)) Passage = Inr embeddings"
  shows "embed_batches e name chunks i vectors =
           embed_batches e name chunks (i + BATCH_SIZE)
             (vectors @ map (\<lambda>j. chunk_record e name (i + j) (take BATCH_SIZE (drop i chunks) ! j)
                                  (embeddings ! j))
                          [0..<length (take BATCH_SIZE (drop i chunks))])"
  using assms by (subst embed_batches.simps) (simp add: Let_def)

text \<open>
  Claim C9 says that the text is normalized before chunking whatever the file type. The
  branches for PDF, PPTX and DOCX clean the text; the last branch returns
  \<^verbatim>\<open>file.text()\<close> as it is. The same content, two paragraphs separated by CR LF CR LF,
  reaches the chunker unchanged from a \<^verbatim>\<open>.txt\<close> file and normalized from a \<^verbatim>\<open>.docx\<close> file, and
  the chunk stored for the \<^verbatim>\<open>.txt\<close> upload still has its carriage returns.
\<close>

theorem plain_text_is_not_normalized:
  "extractTextFromFile (test_env (flaky 0))
     \<lparr>fileName = js ''notes.txt'', content = js ''a'' @ [CR, LF, CR, LF] @ js ''b''\<rparr> =
     Inr (js ''a'' @ [CR, LF, CR, LF] @ js ''b'') \<and>
   extractTextFromFile (test_env (flaky 0))
     \<lparr>fileName = js ''notes.docx'', content = js ''a'' @ [CR, LF, CR, LF] @ js ''b''\<rparr> =
     Inr (js ''a'' @ [LF, LF] @ js ''b'') \<and>
   map chunk (snd (snd (POST_documents (test_env (flaky 0)) 0 (js ''203.0.113.7'')
       (Some \<lparr>fileName = js ''notes.txt'', content = js ''a'' @ [CR, LF, CR, LF] @ js ''b''\<rparr>)
       ([], \<lambda>ns. []))) (js ''203.0.113.7'')) =
     [js ''a'' @ [CR, LF, CR, LF] @ js ''b'']"
proof -
  let ?e = "test_env (flaky 0)"
  let ?raw = "js ''a'' @ [CR, LF, CR, LF] @ js ''b''"
  let ?ip = "js ''203.0.113.7''"
  have x1: "extractTextFromFile ?e \<lparr>fileName = js ''notes.txt'', content = ?raw\<rparr> = Inr ?raw"
    by (simp add: route_eval LF_def)
  have x2: "extractTextFromFile ?e \<lparr>fileName = js ''notes.docx'', content = ?raw\<rparr> =
              Inr (js ''a'' @ [LF, LF] @ js ''b'')"
    by (simp add: route_eval LF_def trim_def is_space_def)
  have adm: "checkRateLimit 0 ?ip uploadRateLimit [] =
      (\<lparr>allowed = True, remaining = 9, resetIn = 60000\<rparr>, [(?ip, \<lparr>count = 1, resetTime = 60000\<rparr>)])"
    by (simp add: checkRateLimit_def cleanup_def uploadRateLimit_def)
  have t: "trim ?raw \<noteq> []" by (simp add: js_def CR_def LF_def trim_def is_space_def)
  have c: "chunkText ?raw 2000 = Some [?raw]" by (simp add: chunk_eval CR_def)
  have b: "getEmbeddingsBatch (NVIDIA_API_KEY ?e) (embeddingProvider ?e) [?raw] Passage = Inr [[1, 2, 3]]"
    by (simp add: getEmbeddingsBatch_def test_env_def flaky0_succeeds)
  have v: "embed_batches ?e (js ''notes.txt'') [?raw] 0 [] =
             Inr [chunk_record ?e (js ''notes.txt'') 0 ?raw [1, 2, 3]]"
  proof -
    have "getEmbeddingsBatch (NVIDIA_API_KEY ?e) (embeddingProvider ?e)
            (take BATCH_SIZE (drop 0 [?raw])) Passage = Inr [[1, 2, 3]]"
      using b by (simp add: BATCH_SIZE_def)
    from embed_batches_step [OF _ this, of "js ''notes.txt''" "[]"]
    show ?thesis by (simp add: embed_batches_done BATCH_SIZE_def)
  qed
  have "snd (snd (POST_documents ?e 0 ?ip (Some \<lparr>fileName = js ''notes.txt'', content = ?raw\<rparr>)
               ([], \<lambda>ns. []))) ?ip = [chunk_record ?e (js ''notes.txt'') 0 ?raw [1, 2, 3]]"
    using x1 t c v by (simp add: POST_documents_def adm upsert_def target_getIndex)
  then have x3: "map chunk (snd (snd (POST_documents ?e 0 ?ip
       (Some \<lparr>fileName = js ''notes.txt'', content = ?raw\<rparr>) ([], \<lambda>ns. []))) ?ip) = [?raw]"
    by (simp add: chunk_record_def)
  from x1 x2 x3 show ?thesis by (intro conjI)
qed

end

